theory Spec2Isabelle
  imports Complex_Main "HOL-Library.Word"
begin

unbundle bit_operations_syntax

section \<open>Data model of the utility module\<close>

text \<open>
  The module keeps its state in file-scope variables. The model collects them in one
  record that every function takes and returns. \<open>uint8_t\<close>, \<open>uint16_t\<close>,
  \<open>uint32_t\<close> and \<open>uint64_t\<close> are words of that width; \<open>size_t\<close> counters
  that are bounded by a \<open>len\<close> argument are natural numbers. The two \<open>float\<close>/\<open>double\<close>
  fields are only ever assigned literals by the functions modelled here and are carried
  as reals; the statistics functions, which compute with them, are not modelled.
\<close>

type_synonym u8 = "8 word"
type_synonym u16 = "16 word"
type_synonym u32 = "32 word"
type_synonym u64 = "64 word"

datatype log_level_t = LOG_SILENT | LOG_ERROR | LOG_WARN | LOG_INFO | LOG_DEBUG

fun level_num :: "log_level_t \<Rightarrow> nat" where
  "level_num LOG_SILENT = 0"
| "level_num LOG_ERROR = 1"
| "level_num LOG_WARN = 2"
| "level_num LOG_INFO = 3"
| "level_num LOG_DEBUG = 4"

record module_config_t =
  magic :: u32
  version :: u32
  ring_capacity :: u16
  log_level :: log_level_t
  outlier_z :: real

record welford_t =
  stat_n :: u64
  stat_mean :: real
  stat_m2 :: real

record ring_t =
  head :: u16
  tail :: u16
  capacity :: u16

text \<open>
  One line written to \<open>stderr\<close> by the logger: tag, format string, arguments. An
  argument is an unsigned number or a string.
\<close>

datatype log_arg = Arg_nat nat | Arg_str string

type_synonym log_line = "string \<times> string \<times> log_arg list"

record module_state =
  g_config :: module_config_t
  g_total_bytes_pushed :: u64
  g_total_bytes_popped :: u64
  s_ring_storage :: "u8 list"
  s_ring :: ring_t
  s_log_level :: log_level_t
  s_crc_table_ready :: bool
  s_crc16_table :: "u16 list"
  s_prng_state :: u32
  s_stats :: welford_t
  stderr_out :: "log_line list"

text \<open>\<open>sizeof(s_ring_storage)\<close>.\<close>

definition RING_STORAGE_SIZE :: nat where
  "RING_STORAGE_SIZE = 1024"

text \<open>The state given by the static initialisers (zero-filled arrays).\<close>

definition init_state :: module_state where
  "init_state =
     \<lparr> g_config = \<lparr> magic = 0xC0FFEE, version = 1, ring_capacity = 256,
                    log_level = LOG_INFO, outlier_z = 3 \<rparr>,
       g_total_bytes_pushed = 0,
       g_total_bytes_popped = 0,
       s_ring_storage = replicate 1024 0,
       s_ring = \<lparr> head = 0, tail = 0, capacity = 0 \<rparr>,
       s_log_level = LOG_INFO,
       s_crc_table_ready = False,
       s_crc16_table = replicate 256 0,
       s_prng_state = 0x12345678,
       s_stats = \<lparr> stat_n = 0, stat_mean = 0, stat_m2 = 0 \<rparr>,
       stderr_out = [] \<rparr>"

text \<open>
  Undefined behaviour of the C program is a value of the model: a remainder with
  divisor zero, an index outside \<open>s_ring_storage\<close>, an access through a null pointer,
  and an access past the end of a buffer the caller passed in.
\<close>

datatype error = DivByZero | StorageOutOfBounds | NullDereference | CallerBufferOverrun

section \<open>Logger\<close>

fun tag :: "log_level_t \<Rightarrow> string" where
  "tag LOG_SILENT = ''SILENT''"
| "tag LOG_ERROR = ''ERROR''"
| "tag LOG_WARN = ''WARN''"
| "tag LOG_INFO = ''INFO''"
| "tag LOG_DEBUG = ''DEBUG''"

definition prv_log :: "log_level_t \<Rightarrow> string \<Rightarrow> log_arg list \<Rightarrow> module_state \<Rightarrow> module_state" where
  "prv_log lvl fmt args s =
     (if level_num lvl > level_num (s_log_level s) \<or> lvl = LOG_SILENT then s
      else s\<lparr>stderr_out := stderr_out s @ [(tag lvl, fmt, args)]\<rparr>)"

section \<open>Configuration and reset\<close>

definition module_init :: "module_config_t option \<Rightarrow> module_state \<Rightarrow> module_state \<times> bool" where
  "module_init cfg s =
     (let use = (case cfg of Some c \<Rightarrow> c | None \<Rightarrow> g_config s) in
      if ring_capacity use = 0 \<or> unat (ring_capacity use) > RING_STORAGE_SIZE then (s, False)
      else
        let s1 = s\<lparr>g_config := use\<rparr>;
            s2 = s1\<lparr>s_log_level := log_level (g_config s1)\<rparr>;
            s3 = s2\<lparr>s_ring := (s_ring s2)\<lparr>capacity := ring_capacity (g_config s2)\<rparr>\<rparr>;
            s4 = s3\<lparr>s_ring := (s_ring s3)\<lparr>head := 0, tail := 0\<rparr>\<rparr>;
            s5 = s4\<lparr>s_crc_table_ready := False\<rparr>;
            s6 = s5\<lparr>s_prng_state := 0xCAFEBABE\<rparr>;
            s7 = s6\<lparr>s_stats := \<lparr> stat_n = 0, stat_mean = 0, stat_m2 = 0 \<rparr>\<rparr>
        in (prv_log LOG_INFO ''module_init: cap=%u level=%d''
              [Arg_nat (unat (capacity (s_ring s7))), Arg_nat (level_num (s_log_level s7))] s7, True))"

definition module_set_config :: "module_config_t option \<Rightarrow> module_state \<Rightarrow> module_state \<times> bool" where
  "module_set_config cfg s =
     (case cfg of
        None \<Rightarrow> (s, False)
      | Some c \<Rightarrow>
          if ring_capacity c = 0 \<or> unat (ring_capacity c) > RING_STORAGE_SIZE then (s, False)
          else
            let s1 = s\<lparr>g_config := c\<rparr>;
                s2 = s1\<lparr>s_log_level := log_level (g_config s1)\<rparr>;
                s3 = s2\<lparr>s_ring := (s_ring s2)\<lparr>capacity := ring_capacity (g_config s2)\<rparr>\<rparr>;
                s4 = s3\<lparr>s_ring := (s_ring s3)\<lparr>head := 0, tail := 0\<rparr>\<rparr>
            in (prv_log LOG_DEBUG ''set_config: cap=%u level=%d''
                  [Arg_nat (unat (capacity (s_ring s4))), Arg_nat (level_num (s_log_level s4))] s4, True))"

definition module_reset :: "module_state \<Rightarrow> module_state" where
  "module_reset s =
     (let s1 = s\<lparr>s_ring := (s_ring s)\<lparr>head := 0, tail := 0\<rparr>\<rparr>;
          s2 = s1\<lparr>g_total_bytes_pushed := 0\<rparr>;
          s3 = s2\<lparr>g_total_bytes_popped := 0\<rparr>
      in prv_log LOG_INFO ''module_reset'' [] s3)"

definition log_set_level :: "log_level_t \<Rightarrow> module_state \<Rightarrow> module_state" where
  "log_set_level level s =
     prv_log LOG_INFO ''log_set_level=%d'' [Arg_nat (level_num level)] (s\<lparr>s_log_level := level\<rparr>)"

section \<open>Ring buffer\<close>

text \<open>
  The expression \<open>(uint16_t)((i + 1u) % s_ring.capacity)\<close>: both operands are converted
  to 32-bit \<open>unsigned int\<close>, the remainder is taken there and truncated to 16 bits.
  A zero divisor is undefined behaviour.
\<close>

definition ring_next :: "u16 \<Rightarrow> u16 \<Rightarrow> error + u16" where
  "ring_next i cap =
     (if (ucast cap :: u32) = 0 then Inl DivByZero
      else Inr (ucast (((ucast i :: u32) + 1) mod (ucast cap :: u32))))"

definition prv_ring_empty :: "module_state \<Rightarrow> bool" where
  "prv_ring_empty s = (head (s_ring s) = tail (s_ring s))"

definition prv_ring_full :: "module_state \<Rightarrow> error + bool" where
  "prv_ring_full s =
     (case ring_next (head (s_ring s)) (capacity (s_ring s)) of
        Inl e \<Rightarrow> Inl e
      | Inr h \<Rightarrow> Inr (h = tail (s_ring s)))"

text \<open>
  The \<open>while\<close> loop of \<open>ring_push\<close>. \<open>p\<close> is the caller's buffer, \<open>len\<close> the length
  argument and \<open>pushed\<close> the loop counter. The condition short-circuits: the full
  predicate is evaluated only when \<open>pushed < len\<close>.
\<close>

function push_loop :: "u8 list \<Rightarrow> nat \<Rightarrow> nat \<Rightarrow> module_state \<Rightarrow> error + (module_state \<times> nat)" where
  "push_loop p len pushed s =
     (if pushed < len then
        (case prv_ring_full s of
           Inl e \<Rightarrow> Inl e
         | Inr full \<Rightarrow>
             if full then Inr (s, pushed)
             else if \<not> pushed < length p then Inl CallerBufferOverrun
             else if \<not> unat (head (s_ring s)) < RING_STORAGE_SIZE then Inl StorageOutOfBounds
             else
               (case ring_next (head (s_ring s)) (capacity (s_ring s)) of
                  Inl e \<Rightarrow> Inl e
                | Inr h \<Rightarrow>
                    push_loop p len (pushed + 1)
                      (s\<lparr>s_ring_storage := (s_ring_storage s)[unat (head (s_ring s)) := p ! pushed],
                         s_ring := (s_ring s)\<lparr>head := h\<rparr>\<rparr>)))
      else Inr (s, pushed))"
  by pat_completeness auto
termination
  by (relation "measure (\<lambda>(p, len, pushed, s). len - pushed)") auto

text \<open>
  \<open>ring_push(data, len)\<close>: \<open>data\<close> is \<open>None\<close> for a null pointer and otherwise the
  bytes of the caller's buffer. The result is the new state and the returned count.
\<close>

definition ring_push :: "u8 list option \<Rightarrow> nat \<Rightarrow> module_state \<Rightarrow> error + (module_state \<times> nat)" where
  "ring_push data len s =
     (case data of
        None \<Rightarrow> Inr (s, 0)
      | Some p \<Rightarrow>
          if len = 0 then Inr (s, 0)
          else
            (case push_loop p len 0 s of
               Inl e \<Rightarrow> Inl e
             | Inr (s1, pushed) \<Rightarrow>
                 let s2 = s1\<lparr>g_total_bytes_pushed := g_total_bytes_pushed s1 + of_nat pushed\<rparr>;
                     s3 = (if pushed < len
                           then prv_log LOG_WARN ''ring_push: truncated (wanted=%zu, pushed=%zu)''
                                  [Arg_nat len, Arg_nat pushed] s2
                           else s2)
                 in Inr (s3, pushed)))"

text \<open>
  The \<open>while\<close> loop of \<open>ring_pop\<close>. \<open>p\<close> is the caller's output buffer, which the
  loop overwrites from index 0.
\<close>

function pop_loop :: "u8 list \<Rightarrow> nat \<Rightarrow> nat \<Rightarrow> module_state \<Rightarrow> error + (module_state \<times> u8 list \<times> nat)" where
  "pop_loop p len popped s =
     (if popped < len \<and> \<not> prv_ring_empty s then
        (if \<not> popped < length p then Inl CallerBufferOverrun
         else if \<not> unat (tail (s_ring s)) < RING_STORAGE_SIZE then Inl StorageOutOfBounds
         else
           (case ring_next (tail (s_ring s)) (capacity (s_ring s)) of
              Inl e \<Rightarrow> Inl e
            | Inr t \<Rightarrow>
                pop_loop (p[popped := s_ring_storage s ! unat (tail (s_ring s))]) len (popped + 1)
                  (s\<lparr>s_ring := (s_ring s)\<lparr>tail := t\<rparr>\<rparr>)))
      else Inr (s, p, popped))"
  by pat_completeness auto
termination
  by (relation "measure (\<lambda>(p, len, popped, s). len - popped)") auto

text \<open>
  \<open>ring_pop(out, len)\<close>: the result is the new state, the caller's buffer after the
  call and the returned count.
\<close>

definition ring_pop :: "u8 list option \<Rightarrow> nat \<Rightarrow> module_state \<Rightarrow> error + (module_state \<times> u8 list option \<times> nat)" where
  "ring_pop out len s =
     (case out of
        None \<Rightarrow> Inr (s, None, 0)
      | Some p \<Rightarrow>
          if len = 0 then Inr (s, Some p, 0)
          else
            (case pop_loop p len 0 s of
               Inl e \<Rightarrow> Inl e
             | Inr (s1, p1, popped) \<Rightarrow>
                 Inr (s1\<lparr>g_total_bytes_popped := g_total_bytes_popped s1 + of_nat popped\<rparr>,
                      Some p1, popped)))"

section \<open>CRC16-CCITT\<close>

text \<open>The body of the inner loop of \<open>prv_crc16_build_table\<close>, on \<open>uint16_t\<close>.\<close>

definition crc_shift :: "u16 \<Rightarrow> u16" where
  "crc_shift crc =
     (if crc AND 0x8000 \<noteq> 0 then push_bit 1 crc XOR 0x1021 else push_bit 1 crc)"

text \<open>The outer loop, \<open>for (uint16_t i = 0; i < 256u; ++i)\<close>, writing \<open>s_crc16_table[i]\<close>.\<close>

function build_loop :: "u16 \<Rightarrow> u16 list \<Rightarrow> u16 list" where
  "build_loop i tbl =
     (if unat i < 256 then
        (let crc = push_bit 8 i;
             crc = (crc_shift ^^ 8) crc
         in build_loop (i + 1) (tbl[unat i := crc]))
      else tbl)"
  by pat_completeness auto
termination
proof (relation "measure (\<lambda>(i, tbl). 256 - unat i)")
  show "wf (measure (\<lambda>(i :: u16, tbl :: u16 list). 256 - unat i))"
    by simp
next
  fix i :: u16 and tbl :: "u16 list" and x xa :: u16
  assume "unat i < 256"
  then have "unat (i + 1) = unat i + 1"
    by (simp add: unat_word_ariths)
  with \<open>unat i < 256\<close>
  show "((i + 1, tbl[unat i := xa]), (i, tbl)) \<in> measure (\<lambda>(i, tbl). 256 - unat i)"
    by simp
qed

definition prv_crc16_build_table :: "module_state \<Rightarrow> module_state" where
  "prv_crc16_build_table s = s\<lparr>s_crc16_table := build_loop 0 (s_crc16_table s)\<rparr>"

text \<open>
  The \<open>for\<close> loop of \<open>crc16_ccitt\<close> over the caller's buffer. The index is a
  \<open>uint8_t\<close>, so it is always inside the 256-entry table.
\<close>

function crc_loop :: "u8 list option \<Rightarrow> nat \<Rightarrow> nat \<Rightarrow> u16 list \<Rightarrow> u16 \<Rightarrow> error + u16" where
  "crc_loop p len i tbl crc =
     (if i < len then
        (case p of
           None \<Rightarrow> Inl NullDereference
         | Some bs \<Rightarrow>
             if \<not> i < length bs then Inl CallerBufferOverrun
             else
               (let idx = (ucast (drop_bit 8 crc XOR ucast (bs ! i)) :: u8);
                    crc' = push_bit 8 crc XOR tbl ! unat idx
                in crc_loop p len (i + 1) tbl crc'))
      else Inr crc)"
  by pat_completeness auto
termination
  by (relation "measure (\<lambda>(p, len, i, tbl, crc). len - i)") auto

definition crc16_ccitt :: "u8 list option \<Rightarrow> nat \<Rightarrow> module_state \<Rightarrow> error + (module_state \<times> u16)" where
  "crc16_ccitt data len s =
     (let s1 = (if \<not> s_crc_table_ready s
                then (prv_crc16_build_table s)\<lparr>s_crc_table_ready := True\<rparr>
                else s)
      in case crc_loop data len 0 (s_crc16_table s1) 0xFFFF of
           Inl e \<Rightarrow> Inl e
         | Inr crc \<Rightarrow> Inr (s1, crc))"

text \<open>
  The reference the table-driven routine is compared with, written from the published
  description of CRC-16/CCITT-FALSE (polynomial \<open>0x1021\<close>, initial value \<open>0xFFFF\<close>, no
  reflection, no final XOR): each message byte is XORed into the high byte of the
  register, then the register is shifted left eight times, one bit at a time, the
  polynomial being XORed in whenever the bit shifted out is 1.
\<close>

definition ref_bit :: "u16 \<Rightarrow> u16" where
  "ref_bit r = (if bit r 15 then push_bit 1 r XOR 0x1021 else push_bit 1 r)"

fun ref_bytes :: "u8 list \<Rightarrow> u16 \<Rightarrow> u16" where
  "ref_bytes [] r = r"
| "ref_bytes (b # bs) r = ref_bytes bs ((ref_bit ^^ 8) (r XOR push_bit 8 (ucast b)))"

definition crc16_ccitt_false_ref :: "u8 list \<Rightarrow> u16" where
  "crc16_ccitt_false_ref bs = ref_bytes bs 0xFFFF"

section \<open>Pseudo-random generator\<close>

definition srand32 :: "u32 \<Rightarrow> module_state \<Rightarrow> module_state" where
  "srand32 seed s =
     (let s1 = s\<lparr>s_prng_state := (if seed \<noteq> 0 then seed else 1)\<rparr>
      in prv_log LOG_DEBUG ''srand32: seed=0x%08X'' [Arg_nat (unat (s_prng_state s1))] s1)"

definition rand32 :: "module_state \<Rightarrow> module_state \<times> u32" where
  "rand32 s =
     (let x = s_prng_state s;
          x = x XOR push_bit 13 x;
          x = x XOR drop_bit 17 x;
          x = x XOR push_bit 5 x
      in (s\<lparr>s_prng_state := x\<rparr>, x))"

section \<open>Self test\<close>

text \<open>
  The buffer \<open>msg\<close> of \<open>module_self_test\<close>: the characters of \<open>hello, ring\<close> and the
  terminating zero. \<open>strlen(msg)\<close> is 11.
\<close>

definition self_test_msg :: "u8 list" where
  "self_test_msg = [0x68, 0x65, 0x6C, 0x6C, 0x6F, 0x2C, 0x20, 0x72, 0x69, 0x6E, 0x67, 0x00]"

text \<open>
  \<open>module_self_test\<close>. The ten \<open>stats_add_sample\<close> calls compute in \<open>double\<close>
  arithmetic, which is not modelled: they add 10 to the sample count, and the mean and
  \<open>m2\<close> they leave are the parameters \<open>mean'\<close> and \<open>m2'\<close>.
\<close>

definition module_self_test :: "real \<Rightarrow> real \<Rightarrow> module_state \<Rightarrow> error + (module_state \<times> bool)" where
  "module_self_test mean' m2' s =
     (let s0 = module_reset s in
      case ring_push (Some self_test_msg) 11 s0 of
        Inl e \<Rightarrow> Inl e
      | Inr (s1, p) \<Rightarrow>
          (case ring_pop (Some (replicate 32 0)) 32 s1 of
             Inl e \<Rightarrow> Inl e
           | Inr (s2, buf, r) \<Rightarrow>
               (case crc16_ccitt buf r s2 of
                  Inl e \<Rightarrow> Inl e
                | Inr (s3, c) \<Rightarrow>
                    let s4 = srand32 0xDEADBEEF s3;
                        s5 = fst (rand32 s4);
                        s6 = fst (rand32 s5);
                        s7 = s6\<lparr>s_stats := \<lparr> stat_n = stat_n (s_stats s6) + 10,
                                               stat_mean = mean', stat_m2 = m2' \<rparr>\<rparr>;
                        ok = (p = 11 \<and> r = 11 \<and> c \<noteq> 0)
                    in Inr (prv_log (if ok then LOG_INFO else LOG_ERROR) ''self_test: %s''
                              [Arg_str (if ok then ''OK'' else ''FAIL'')] s7, ok))))"

section \<open>Sequences of calls\<close>

text \<open>
  The public functions that change the ring, the counters or the CRC table, with
  \<open>log_set_level\<close> and the generator, as calls with their arguments, and what a call
  returns. The statistics functions, which only compute with floating point on
  \<open>s_stats\<close>, and \<open>module_dump\<close>, which only prints, are left out. \<open>run\<close> performs a list of calls in order and
  stops at the first undefined behaviour; it returns the last state and every call's
  return value.
\<close>

datatype api_call =
    Call_module_init "module_config_t option"
  | Call_module_set_config "module_config_t option"
  | Call_module_reset
  | Call_log_set_level log_level_t
  | Call_ring_push "u8 list option" nat
  | Call_ring_pop "u8 list option" nat
  | Call_crc16_ccitt "u8 list option" nat
  | Call_srand32 u32
  | Call_rand32
  | Call_module_self_test real real

datatype ret = Ret_void | Ret_bool bool | Ret_size nat | Ret_u16 u16 | Ret_u32 u32

fun call :: "api_call \<Rightarrow> module_state \<Rightarrow> error + (module_state \<times> ret)" where
  "call (Call_module_init cfg) s = (case module_init cfg s of (s', ok) \<Rightarrow> Inr (s', Ret_bool ok))"
| "call (Call_module_set_config cfg) s =
     (case module_set_config cfg s of (s', ok) \<Rightarrow> Inr (s', Ret_bool ok))"
| "call Call_module_reset s = Inr (module_reset s, Ret_void)"
| "call (Call_log_set_level level) s = Inr (log_set_level level s, Ret_void)"
| "call (Call_ring_push data len) s =
     (case ring_push data len s of Inl e \<Rightarrow> Inl e | Inr (s', k) \<Rightarrow> Inr (s', Ret_size k))"
| "call (Call_ring_pop out len) s =
     (case ring_pop out len s of Inl e \<Rightarrow> Inl e | Inr (s', out', k) \<Rightarrow> Inr (s', Ret_size k))"
| "call (Call_crc16_ccitt data len) s =
     (case crc16_ccitt data len s of Inl e \<Rightarrow> Inl e | Inr (s', c) \<Rightarrow> Inr (s', Ret_u16 c))"
| "call (Call_srand32 seed) s = Inr (srand32 seed s, Ret_void)"
| "call Call_rand32 s = (case rand32 s of (s', x) \<Rightarrow> Inr (s', Ret_u32 x))"
| "call (Call_module_self_test mean' m2') s =
     (case module_self_test mean' m2' s of Inl e \<Rightarrow> Inl e | Inr (s', ok) \<Rightarrow> Inr (s', Ret_bool ok))"

fun run :: "api_call list \<Rightarrow> module_state \<Rightarrow> error + (module_state \<times> ret list)" where
  "run [] s = Inr (s, [])"
| "run (c # cs) s =
     (case call c s of
        Inl e \<Rightarrow> Inl e
      | Inr (s', r) \<Rightarrow>
          (case run cs s' of Inl e \<Rightarrow> Inl e | Inr (s'', rs) \<Rightarrow> Inr (s'', r # rs)))"

text \<open>
  The byte counts a call reports: what a push accepted, what a pop delivered.
\<close>

fun pushed_by :: "api_call \<Rightarrow> ret \<Rightarrow> nat" where
  "pushed_by (Call_ring_push data len) (Ret_size k) = k"
| "pushed_by c r = 0"

fun popped_by :: "api_call \<Rightarrow> ret \<Rightarrow> nat" where
  "popped_by (Call_ring_pop out len) (Ret_size k) = k"
| "popped_by c r = 0"

text \<open>
  The number of bytes a sequence of calls has put into the buffer and not taken out
  again, from the counts the calls returned: what push calls accepted minus what pop
  calls delivered.
\<close>

fun net_bytes :: "api_call list \<Rightarrow> ret list \<Rightarrow> int" where
  "net_bytes (c # cs) (r # rs) = int (pushed_by c r) - int (popped_by c r) + net_bytes cs rs"
| "net_bytes cs rs = 0"

text \<open>Kinds of calls.\<close>

fun is_config_call :: "api_call \<Rightarrow> bool" where
  "is_config_call (Call_module_init cfg) = True"
| "is_config_call (Call_module_set_config cfg) = True"
| "is_config_call c = False"

fun is_self_test :: "api_call \<Rightarrow> bool" where
  "is_self_test (Call_module_self_test mean' m2') = True"
| "is_self_test c = False"

fun is_ring_io :: "api_call \<Rightarrow> bool" where
  "is_ring_io (Call_ring_push data len) = True"
| "is_ring_io (Call_ring_pop out len) = True"
| "is_ring_io c = False"

text \<open>
  The caller keeps the C contract of a call when a non-null buffer it passes has at
  least \<open>len\<close> bytes, and a null buffer is passed to \<open>crc16_ccitt\<close> with length 0 only.
\<close>

fun buffers_ok :: "api_call \<Rightarrow> bool" where
  "buffers_ok (Call_ring_push (Some p) len) = (len \<le> length p)"
| "buffers_ok (Call_ring_pop (Some p) len) = (len \<le> length p)"
| "buffers_ok (Call_crc16_ccitt None len) = (len = 0)"
| "buffers_ok (Call_crc16_ccitt (Some p) len) = (len \<le> length p)"
| "buffers_ok c = True"

section \<open>Abstraction of the ring state\<close>

text \<open>
  A state is well formed when the arrays have their declared sizes and the ring has
  been configured: the capacity is between 1 and the storage size and both indices are
  below it.
\<close>

definition ring_ok :: "module_state \<Rightarrow> bool" where
  "ring_ok s \<longleftrightarrow>
     length (s_ring_storage s) = RING_STORAGE_SIZE \<and>
     1 \<le> unat (capacity (s_ring s)) \<and> unat (capacity (s_ring s)) \<le> RING_STORAGE_SIZE \<and>
     unat (head (s_ring s)) < unat (capacity (s_ring s)) \<and>
     unat (tail (s_ring s)) < unat (capacity (s_ring s))"

text \<open>
  The number of queued bytes, their values in queue order, and the free slots. In the
  unconfigured state (all three fields 0) the count is 0, since \<open>0 mod 0 = 0\<close> in HOL;
  there \<open>ring_pop\<close> finds \<open>head = tail\<close> and delivers nothing.
\<close>

definition ring_count :: "module_state \<Rightarrow> nat" where
  "ring_count s =
     (unat (head (s_ring s)) + unat (capacity (s_ring s)) - unat (tail (s_ring s)))
       mod unat (capacity (s_ring s))"

definition ring_contents :: "module_state \<Rightarrow> u8 list" where
  "ring_contents s =
     map (\<lambda>i. s_ring_storage s ! ((unat (tail (s_ring s)) + i) mod unat (capacity (s_ring s))))
       [0 ..< ring_count s]"

definition ring_free :: "module_state \<Rightarrow> nat" where
  "ring_free s = unat (capacity (s_ring s)) - 1 - ring_count s"

text \<open>
  A call reconfigures the ring when it is a configuration call that succeeds. A sequence
  of calls configures on empty when each such call finds the ring empty.
\<close>

definition reconfigures :: "api_call \<Rightarrow> module_state \<Rightarrow> bool" where
  "reconfigures c s \<longleftrightarrow>
     (case c of
        Call_module_init cfg \<Rightarrow> snd (module_init cfg s)
      | Call_module_set_config cfg \<Rightarrow> snd (module_set_config cfg s)
      | _ \<Rightarrow> False)"

fun config_on_empty :: "api_call list \<Rightarrow> module_state \<Rightarrow> bool" where
  "config_on_empty [] s = True"
| "config_on_empty (c # cs) s =
     ((if reconfigures c s then prv_ring_empty s else True) \<and>
      (case call c s of Inl e \<Rightarrow> True | Inr (s', r) \<Rightarrow> config_on_empty cs s'))"

text \<open>
  The two cumulative counters, and their difference next to the number of queued bytes.
\<close>

definition counters :: "module_state \<Rightarrow> u64 \<times> u64" where
  "counters s = (g_total_bytes_pushed s, g_total_bytes_popped s)"

definition queue_balance :: "module_state \<Rightarrow> u64 \<times> nat" where
  "queue_balance s = (g_total_bytes_pushed s - g_total_bytes_popped s, ring_count s)"

text \<open>
  The state is either configured or still as initialised, the storage has its declared
  size, and the counters differ by the number of queued bytes.
\<close>

definition conservation_inv :: "module_state \<Rightarrow> bool" where
  "conservation_inv s \<longleftrightarrow>
     (ring_ok s \<or> s_ring s = \<lparr>head = 0, tail = 0, capacity = 0\<rparr>) \<and>
     length (s_ring_storage s) = 1024 \<and>
     g_total_bytes_pushed s - g_total_bytes_popped s = of_nat (ring_count s)"

text \<open>
  The table \<open>prv_crc16_build_table\<close> leaves in \<open>s_crc16_table\<close>, entry by entry, and
  what the lazy initialisation keeps true of the state: the table has 256 entries, and
  once the ready flag is set it is that table.
\<close>

definition crc16_table :: "u16 list" where
  "crc16_table = map (\<lambda>n. (crc_shift ^^ 8) (push_bit 8 (of_nat n))) [0 ..< 256]"

definition crc_inv :: "module_state \<Rightarrow> bool" where
  "crc_inv s \<longleftrightarrow>
     length (s_crc16_table s) = 256 \<and>
     (s_crc_table_ready s \<longrightarrow> s_crc16_table s = crc16_table)"

text \<open>
  The distance from index \<open>T\<close> forward to index \<open>H\<close> on a ring of \<open>C\<close> slots.
\<close>

definition ring_dist :: "nat \<Rightarrow> nat \<Rightarrow> nat \<Rightarrow> nat" where
  "ring_dist H T C = (H + C - T) mod C"

section \<open>Index arithmetic\<close>

declare push_loop.simps [simp del] pop_loop.simps [simp del]
  build_loop.simps [simp del] crc_loop.simps [simp del]

lemma unat_u16_bound: "unat (w :: u16) < 65536"
  using unsigned_less [of w, where 'a = nat] by simp

lemma unat_ucast_16_32: "unat (ucast (i :: u16) :: u32) = unat i"
proof -
  have "unat i < 2 ^ 32" using unat_u16_bound [of i] by simp
  then show ?thesis by (simp add: unsigned_ucast_eq take_bit_nat_eq_self)
qed

lemma ring_next_Inr:
  assumes "unat cap \<noteq> 0"
  shows "\<exists>h. ring_next i cap = Inr h \<and> unat h = (unat i + 1) mod unat cap"
proof -
  have "unat (ucast cap :: u32) \<noteq> 0" using assms by (simp add: unat_ucast_16_32)
  then have c0: "(ucast cap :: u32) \<noteq> 0" by auto
  have i: "unat i < 65536" by (rule unat_u16_bound)
  have c: "unat cap < 65536" by (rule unat_u16_bound)
  have 1: "unat ((ucast i :: u32) + 1) = unat i + 1"
    using i by (simp add: unat_word_ariths unat_ucast_16_32)
  have 2: "unat (((ucast i :: u32) + 1) mod ucast cap) = (unat i + 1) mod unat cap"
    by (simp only: unat_mod 1 unat_ucast_16_32)
  have 3: "(unat i + 1) mod unat cap < 2 ^ 16"
    using c assms by (simp add: less_trans [OF mod_less_divisor])
  have "unat (ucast (((ucast i :: u32) + 1) mod ucast cap) :: u16) = (unat i + 1) mod unat cap"
    using 3 by (simp only: unsigned_ucast_eq 2) (simp add: take_bit_nat_eq_self)
  then show ?thesis using c0 by (simp add: ring_next_def)
qed

lemma ring_next_zero: "ring_next i 0 = Inl DivByZero"
  by (simp add: ring_next_def)

lemma ring_dist_cases: "H < C \<Longrightarrow> T < C \<Longrightarrow> ring_dist H T C = (if T \<le> H then H - T else H + C - T)"
  unfolding ring_dist_def
proof (cases "T \<le> H")
  case True
  assume "H < C" "T < C"
  then have "H + C - T = (H - T) + C" using True by simp
  then have "(H + C - T) mod C = (H - T) mod C" by simp
  then show "(H + C - T) mod C = (if T \<le> H then H - T else H + C - T)"
    using True \<open>H < C\<close> by simp
next
  case False
  assume "H < C" "T < C"
  then show "(H + C - T) mod C = (if T \<le> H then H - T else H + C - T)"
    using False by simp
qed

lemma succ_mod: "(H::nat) < C \<Longrightarrow> (H + 1) mod C = (if H + 1 = C then 0 else H + 1)"
  by (auto simp: mod_if)

lemma Suc_mod_cases: "H < C \<Longrightarrow> Suc H mod C = (if Suc H = C then 0 else Suc H)"
  using succ_mod [of H C] by simp

lemma add_mod_cases: "(T::nat) < C \<Longrightarrow> i < C \<Longrightarrow> (T + i) mod C = (if T + i < C then T + i else T + i - C)"
  by (auto simp: mod_if not_less le_mod_geq)

lemma ring_dist_bound: "H < C \<Longrightarrow> T < C \<Longrightarrow> ring_dist H T C < C"
  by (auto simp: ring_dist_cases)

lemma ring_dist_zero: "H < C \<Longrightarrow> T < C \<Longrightarrow> ring_dist H T C = 0 \<longleftrightarrow> H = T"
  by (auto simp: ring_dist_cases)

lemma ring_dist_le: "H < C \<Longrightarrow> T < C \<Longrightarrow> ring_dist H T C \<le> C - 1"
  by (auto simp: ring_dist_cases)

lemma ring_dist_full: "H < C \<Longrightarrow> T < C \<Longrightarrow> (H + 1) mod C = T \<longleftrightarrow> ring_dist H T C = C - 1"
  by (auto simp: ring_dist_cases Suc_mod_cases split: if_splits)

lemma ring_dist_push: "H < C \<Longrightarrow> T < C \<Longrightarrow> (H + 1) mod C \<noteq> T \<Longrightarrow> ring_dist ((H + 1) mod C) T C = ring_dist H T C + 1"
  by (auto simp: ring_dist_cases Suc_mod_cases split: if_splits)

lemma ring_dist_pop: "H < C \<Longrightarrow> T < C \<Longrightarrow> H \<noteq> T \<Longrightarrow> ring_dist H ((T + 1) mod C) C = ring_dist H T C - 1"
  by (auto simp: ring_dist_cases Suc_mod_cases split: if_splits)

lemma ring_dist_head: "H < C \<Longrightarrow> T < C \<Longrightarrow> (T + ring_dist H T C) mod C = H"
  by (auto simp: ring_dist_cases add_mod_cases)

lemma ring_dist_not_head: "H < C \<Longrightarrow> T < C \<Longrightarrow> i < ring_dist H T C \<Longrightarrow> (T + i) mod C \<noteq> H"
  by (auto simp: ring_dist_cases add_mod_cases split: if_splits)

section \<open>One iteration of each loop\<close>

lemma ring_count_ring_dist:
  "ring_count s = ring_dist (unat (head (s_ring s))) (unat (tail (s_ring s))) (unat (capacity (s_ring s)))"
  by (simp add: ring_count_def ring_dist_def)

lemma ring_ok_count_le: "ring_ok s \<Longrightarrow> ring_count s \<le> unat (capacity (s_ring s)) - 1"
  using ring_dist_le [of "unat (head (s_ring s))" "unat (capacity (s_ring s))" "unat (tail (s_ring s))"]
  by (simp add: ring_ok_def ring_count_ring_dist)

lemma ring_ok_empty_iff: "ring_ok s \<Longrightarrow> prv_ring_empty s \<longleftrightarrow> ring_count s = 0"
  by (simp add: ring_ok_def ring_count_ring_dist ring_dist_zero prv_ring_empty_def word_unat_eq_iff)

lemma ring_ok_full:
  assumes "ring_ok s"
  shows "prv_ring_full s = Inr (ring_count s = unat (capacity (s_ring s)) - 1)"
proof -
  from assms have c: "unat (capacity (s_ring s)) \<noteq> 0"
    and h: "unat (head (s_ring s)) < unat (capacity (s_ring s))"
    and t: "unat (tail (s_ring s)) < unat (capacity (s_ring s))"
    by (simp_all add: ring_ok_def)
  from ring_next_Inr [OF c, of "head (s_ring s)"] obtain x where
    x: "ring_next (head (s_ring s)) (capacity (s_ring s)) = Inr x"
       "unat x = (unat (head (s_ring s)) + 1) mod unat (capacity (s_ring s))"
    by blast
  have "(x = tail (s_ring s)) = (ring_count s = unat (capacity (s_ring s)) - 1)"
    using ring_dist_full [OF h t] x(2) by (simp add: ring_count_ring_dist word_unat_eq_iff)
  then show ?thesis by (simp add: prv_ring_full_def x(1))
qed

lemma ring_ok_full_free: "ring_ok s \<Longrightarrow> prv_ring_full s = Inr (ring_free s = 0)"
  using ring_ok_count_le [of s] by (auto simp: ring_ok_full ring_free_def)

lemma push_step:
  fixes b :: u8
  assumes ok: "ring_ok s"
    and h: "unat h = (unat (head (s_ring s)) + 1) mod unat (capacity (s_ring s))"
    and nf: "ring_free s \<noteq> 0"
  defines "s1 \<equiv> s\<lparr>s_ring_storage := (s_ring_storage s)[unat (head (s_ring s)) := b],
                    s_ring := (s_ring s)\<lparr>head := h\<rparr>\<rparr>"
  shows "ring_ok s1" and "ring_count s1 = ring_count s + 1"
    and "ring_contents s1 = ring_contents s @ [b]"
    and "ring_free s1 = ring_free s - 1"
proof -
  let ?H = "unat (head (s_ring s))" and ?T = "unat (tail (s_ring s))"
  let ?C = "unat (capacity (s_ring s))"
  from ok have H: "?H < ?C" and T: "?T < ?C" and C: "?C \<le> 1024"
    and L: "length (s_ring_storage s) = 1024"
    by (simp_all add: ring_ok_def RING_STORAGE_SIZE_def)
  from nf have nfull: "(?H + 1) mod ?C \<noteq> ?T"
    using ring_dist_full [OF H T] ring_ok_count_le [OF ok]
    by (auto simp: ring_free_def ring_count_ring_dist)
  show ok1: "ring_ok s1"
    using ok H h by (simp add: ring_ok_def s1_def)
  show c1: "ring_count s1 = ring_count s + 1"
    using ring_dist_push [OF H T nfull] h by (simp add: ring_count_ring_dist s1_def)
  then show "ring_free s1 = ring_free s - 1"
    by (simp add: ring_free_def s1_def)
  have old: "(s_ring_storage s)[?H := b] ! ((?T + i) mod ?C) = s_ring_storage s ! ((?T + i) mod ?C)"
    if "i < ring_count s" for i
    using ring_dist_not_head [OF H T, of i] that by (simp add: ring_count_ring_dist)
  have new: "(s_ring_storage s)[?H := b] ! ((?T + ring_count s) mod ?C) = b"
    using ring_dist_head [OF H T] H C L by (simp add: ring_count_ring_dist)
  have "ring_contents s1 =
          map (\<lambda>i. (s_ring_storage s)[?H := b] ! ((?T + i) mod ?C)) [0 ..< ring_count s + 1]"
    using c1 by (simp add: ring_contents_def s1_def)
  also have "\<dots> = map (\<lambda>i. (s_ring_storage s)[?H := b] ! ((?T + i) mod ?C)) [0 ..< ring_count s] @ [b]"
    using new by simp
  also have "\<dots> = ring_contents s @ [b]"
    using old by (simp add: ring_contents_def)
  finally show "ring_contents s1 = ring_contents s @ [b]" .
qed

lemma pop_step:
  assumes ok: "ring_ok s"
    and t: "unat t = (unat (tail (s_ring s)) + 1) mod unat (capacity (s_ring s))"
    and ne: "\<not> prv_ring_empty s"
  defines "s1 \<equiv> s\<lparr>s_ring := (s_ring s)\<lparr>tail := t\<rparr>\<rparr>"
  shows "ring_ok s1" and "ring_count s1 = ring_count s - 1"
    and "ring_contents s = s_ring_storage s ! unat (tail (s_ring s)) # ring_contents s1"
proof -
  let ?H = "unat (head (s_ring s))" and ?T = "unat (tail (s_ring s))"
  let ?C = "unat (capacity (s_ring s))"
  from ok have H: "?H < ?C" and T: "?T < ?C"
    by (simp_all add: ring_ok_def)
  from ne have neq: "?H \<noteq> ?T"
    by (simp add: prv_ring_empty_def word_unat_eq_iff)
  then have pos: "0 < ring_count s"
    using ring_dist_zero [OF H T] by (simp add: ring_count_ring_dist)
  show "ring_ok s1"
    using ok T t by (simp add: ring_ok_def s1_def)
  show c1: "ring_count s1 = ring_count s - 1"
    using ring_dist_pop [OF H T neq] t by (simp add: ring_count_ring_dist s1_def)
  have idx: "(unat t + i) mod ?C = (?T + Suc i) mod ?C" for i
    by (simp add: t mod_add_left_eq)
  have "[0 ..< ring_count s] = 0 # map Suc [0 ..< ring_count s - 1]"
    using pos by (metis One_nat_def Suc_pred map_Suc_upt upt_conv_Cons)
  then have "ring_contents s =
      s_ring_storage s ! (?T mod ?C) #
      map (\<lambda>i. s_ring_storage s ! ((?T + Suc i) mod ?C)) [0 ..< ring_count s - 1]"
    by (simp add: ring_contents_def comp_def)
  also have "?T mod ?C = ?T" using T by simp
  also have "map (\<lambda>i. s_ring_storage s ! ((?T + Suc i) mod ?C)) [0 ..< ring_count s - 1]
               = ring_contents s1"
    using c1 by (simp add: ring_contents_def s1_def idx)
  finally show "ring_contents s = s_ring_storage s ! ?T # ring_contents s1" .
qed

section \<open>The loops\<close>

lemma push_loop_total:
  assumes "ring_ok s" and "pushed \<le> len"
    and "pushed + min (len - pushed) (ring_free s) \<le> length p"
  shows "\<exists>s' st h. push_loop p len pushed s = Inr (s', pushed + min (len - pushed) (ring_free s)) \<and>
           ring_ok s' \<and>
           ring_count s' = ring_count s + min (len - pushed) (ring_free s) \<and>
           ring_contents s' = ring_contents s @ take (min (len - pushed) (ring_free s)) (drop pushed p) \<and>
           s' = s\<lparr>s_ring_storage := st, s_ring := (s_ring s)\<lparr>head := h\<rparr>\<rparr>"
  using assms
proof (induction "len - pushed" arbitrary: pushed s)
  case 0
  then have "push_loop p len pushed s = Inr (s, pushed)"
    by (subst push_loop.simps) simp
  moreover have "s = s\<lparr>s_ring_storage := s_ring_storage s, s_ring := (s_ring s)\<lparr>head := head (s_ring s)\<rparr>\<rparr>"
    by simp
  ultimately show ?case using 0
    by (intro exI [of _ s] exI [of _ "s_ring_storage s"] exI [of _ "head (s_ring s)"]) simp
next
  case (Suc n)
  then have lt: "pushed < len" by simp
  show ?case
  proof (cases "ring_free s = 0")
    case True
    then have "push_loop p len pushed s = Inr (s, pushed)"
      using lt Suc.prems(1) by (subst push_loop.simps) (simp add: ring_ok_full_free)
    moreover have "s = s\<lparr>s_ring_storage := s_ring_storage s, s_ring := (s_ring s)\<lparr>head := head (s_ring s)\<rparr>\<rparr>"
      by simp
    ultimately show ?thesis using True Suc.prems(1) by (intro exI [of _ s] exI [of _ "s_ring_storage s"] exI [of _ "head (s_ring s)"]) simp
  next
    case False
    let ?H = "unat (head (s_ring s))" and ?C = "unat (capacity (s_ring s))"
    from Suc.prems(1) have C: "?C \<noteq> 0" and H: "?H < RING_STORAGE_SIZE"
      by (simp_all add: ring_ok_def)
    from ring_next_Inr [OF C, of "head (s_ring s)"] obtain h where
      h: "ring_next (head (s_ring s)) (capacity (s_ring s)) = Inr h"
         "unat h = (?H + 1) mod ?C"
      by blast
    define s1 where "s1 = s\<lparr>s_ring_storage := (s_ring_storage s)[?H := p ! pushed],
                              s_ring := (s_ring s)\<lparr>head := h\<rparr>\<rparr>"
    note step = push_step [OF Suc.prems(1) h(2) False, of "p ! pushed", folded s1_def]
    have m: "min (len - pushed) (ring_free s) = Suc (min (len - Suc pushed) (ring_free s1))"
      using lt False step(4) by simp
    have inb: "pushed < length p"
      using Suc.prems(3) m by simp
    have unf: "push_loop p len pushed s = push_loop p len (Suc pushed) s1"
      using lt False Suc.prems(1) inb H h(1)
      by (subst push_loop.simps) (simp add: ring_ok_full_free s1_def)
    have "n = len - Suc pushed" using Suc.hyps(2) by simp
    moreover have "Suc pushed \<le> len" using lt by simp
    moreover have "Suc pushed + min (len - Suc pushed) (ring_free s1) \<le> length p"
      using Suc.prems(3) m by simp
    ultimately obtain s' st h' where
      r: "push_loop p len (Suc pushed) s1 = Inr (s', Suc pushed + min (len - Suc pushed) (ring_free s1))"
         "ring_ok s'"
         "ring_count s' = ring_count s1 + min (len - Suc pushed) (ring_free s1)"
         "ring_contents s' = ring_contents s1 @ take (min (len - Suc pushed) (ring_free s1)) (drop (Suc pushed) p)"
         "s' = s1\<lparr>s_ring_storage := st, s_ring := (s_ring s1)\<lparr>head := h'\<rparr>\<rparr>"
      using Suc.hyps(1) [of "Suc pushed" s1] step(1) by blast
    have tk: "take (min (len - pushed) (ring_free s)) (drop pushed p)
                = p ! pushed # take (min (len - Suc pushed) (ring_free s1)) (drop (Suc pushed) p)"
      using inb by (simp add: m Cons_nth_drop_Suc [symmetric])
    have "push_loop p len pushed s = Inr (s', pushed + min (len - pushed) (ring_free s))"
      using unf r(1) m by simp
    moreover have "ring_count s' = ring_count s + min (len - pushed) (ring_free s)"
      using r(3) step(2) m by simp
    moreover have "ring_contents s' = ring_contents s @ take (min (len - pushed) (ring_free s)) (drop pushed p)"
      using r(4) step(3) tk by simp
    moreover have "s' = s\<lparr>s_ring_storage := st, s_ring := (s_ring s)\<lparr>head := h'\<rparr>\<rparr>"
      using r(5) by (simp add: s1_def)
    ultimately show ?thesis using r(2) by blast
  qed
qed

lemma push_loop_overrun:
  assumes "ring_ok s" and "pushed \<le> len" and "pushed \<le> length p"
    and "length p < pushed + min (len - pushed) (ring_free s)"
  shows "push_loop p len pushed s = Inl CallerBufferOverrun"
  using assms
proof (induction "len - pushed" arbitrary: pushed s)
  case 0
  then show ?case by simp
next
  case (Suc n)
  then have lt: "pushed < len" and nf: "ring_free s \<noteq> 0" by auto
  let ?H = "unat (head (s_ring s))" and ?C = "unat (capacity (s_ring s))"
  from Suc.prems(1) have C: "?C \<noteq> 0" and H: "?H < RING_STORAGE_SIZE"
    by (simp_all add: ring_ok_def)
  from ring_next_Inr [OF C, of "head (s_ring s)"] obtain h where
    h: "ring_next (head (s_ring s)) (capacity (s_ring s)) = Inr h"
       "unat h = (?H + 1) mod ?C"
    by blast
  show ?case
  proof (cases "pushed < length p")
    case False
    then show ?thesis
      using lt nf Suc.prems(1) by (subst push_loop.simps) (simp add: ring_ok_full_free)
  next
    case True
    define s1 where "s1 = s\<lparr>s_ring_storage := (s_ring_storage s)[?H := p ! pushed],
                              s_ring := (s_ring s)\<lparr>head := h\<rparr>\<rparr>"
    note step = push_step [OF Suc.prems(1) h(2) nf, of "p ! pushed", folded s1_def]
    have "push_loop p len pushed s = push_loop p len (Suc pushed) s1"
      using lt nf Suc.prems(1) True H h(1)
      by (subst push_loop.simps) (simp add: ring_ok_full_free s1_def)
    moreover have "push_loop p len (Suc pushed) s1 = Inl CallerBufferOverrun"
    proof (rule Suc.hyps(1))
      show "n = len - Suc pushed" using Suc.hyps(2) by simp
      show "ring_ok s1" by (rule step(1))
      show "Suc pushed \<le> len" using lt by simp
      show "Suc pushed \<le> length p" using True by simp
      show "length p < Suc pushed + min (len - Suc pushed) (ring_free s1)"
        using Suc.prems(4) lt nf step(4) by simp
    qed
    ultimately show ?thesis by simp
  qed
qed

lemma pop_loop_total:
  assumes "ring_ok s" and "popped \<le> len"
    and "popped + min (len - popped) (ring_count s) \<le> length p"
  shows "\<exists>s' t. pop_loop p len popped s =
             Inr (s', take popped p @ take (min (len - popped) (ring_count s)) (ring_contents s)
                        @ drop (popped + min (len - popped) (ring_count s)) p,
                  popped + min (len - popped) (ring_count s)) \<and>
           ring_ok s' \<and>
           ring_count s' = ring_count s - min (len - popped) (ring_count s) \<and>
           ring_contents s' = drop (min (len - popped) (ring_count s)) (ring_contents s) \<and>
           s' = s\<lparr>s_ring := (s_ring s)\<lparr>tail := t\<rparr>\<rparr>"
  using assms
proof (induction "len - popped" arbitrary: popped s p)
  case 0
  then have "pop_loop p len popped s = Inr (s, p, popped)"
    by (subst pop_loop.simps) simp
  moreover have "s = s\<lparr>s_ring := (s_ring s)\<lparr>tail := tail (s_ring s)\<rparr>\<rparr>"
    by simp
  ultimately show ?case using 0
    by (intro exI [of _ s] exI [of _ "tail (s_ring s)"]) simp
next
  case (Suc n)
  then have lt: "popped < len" by simp
  show ?case
  proof (cases "ring_count s = 0")
    case True
    then have "pop_loop p len popped s = Inr (s, p, popped)"
      using Suc.prems(1) by (subst pop_loop.simps) (simp add: ring_ok_empty_iff)
    moreover have "s = s\<lparr>s_ring := (s_ring s)\<lparr>tail := tail (s_ring s)\<rparr>\<rparr>"
      by simp
    ultimately show ?thesis using True Suc.prems(1)
      by (intro exI [of _ s] exI [of _ "tail (s_ring s)"]) (simp add: ring_contents_def)
  next
    case False
    let ?T = "unat (tail (s_ring s))" and ?C = "unat (capacity (s_ring s))"
    from Suc.prems(1) have C: "?C \<noteq> 0" and T: "?T < RING_STORAGE_SIZE"
      by (simp_all add: ring_ok_def)
    from False Suc.prems(1) have ne: "\<not> prv_ring_empty s"
      by (simp add: ring_ok_empty_iff)
    from ring_next_Inr [OF C, of "tail (s_ring s)"] obtain t where
      t: "ring_next (tail (s_ring s)) (capacity (s_ring s)) = Inr t"
         "unat t = (?T + 1) mod ?C"
      by blast
    define x where "x = s_ring_storage s ! ?T"
    define s1 where "s1 = s\<lparr>s_ring := (s_ring s)\<lparr>tail := t\<rparr>\<rparr>"
    define p1 where "p1 = p[popped := x]"
    note step = pop_step [OF Suc.prems(1) t(2) ne, folded s1_def x_def]
    define m1 where "m1 = min (len - Suc popped) (ring_count s1)"
    have m: "min (len - popped) (ring_count s) = Suc m1"
      using lt False step(2) by (simp add: m1_def)
    have inb: "popped < length p"
      using Suc.prems(3) m by simp
    have unf: "pop_loop p len popped s = pop_loop p1 len (Suc popped) s1"
      using lt ne inb T t(1)
      by (subst pop_loop.simps) (simp add: s1_def p1_def x_def)
    have "n = len - Suc popped" using Suc.hyps(2) by simp
    moreover have "Suc popped \<le> len" using lt by simp
    moreover have "Suc popped + min (len - Suc popped) (ring_count s1) \<le> length p1"
      using Suc.prems(3) m by (simp add: p1_def m1_def)
    ultimately obtain s' t' where
      r: "pop_loop p1 len (Suc popped) s1 =
            Inr (s', take (Suc popped) p1 @ take m1 (ring_contents s1) @ drop (Suc popped + m1) p1,
                 Suc popped + m1)"
         "ring_ok s'"
         "ring_count s' = ring_count s1 - m1"
         "ring_contents s' = drop m1 (ring_contents s1)"
         "s' = s1\<lparr>s_ring := (s_ring s1)\<lparr>tail := t'\<rparr>\<rparr>"
      using Suc.hyps(1) [of "Suc popped" s1 p1] step(1) unfolding m1_def by blast
    have b1: "take (Suc popped) p1 = take popped p @ [x]"
      using inb by (simp add: p1_def take_Suc_conv_app_nth)
    have b2: "drop (Suc popped + m1) p1 = drop (popped + Suc m1) p"
      by (simp add: p1_def)
    have "pop_loop p len popped s =
            Inr (s', take popped p @ take (Suc m1) (ring_contents s) @ drop (popped + Suc m1) p,
                 popped + Suc m1)"
      using unf r(1) b1 b2 step(3) by simp
    moreover have "ring_count s' = ring_count s - Suc m1"
      using r(3) step(2) by simp
    moreover have "ring_contents s' = drop (Suc m1) (ring_contents s)"
      using r(4) step(3) by simp
    moreover have "s' = s\<lparr>s_ring := (s_ring s)\<lparr>tail := t'\<rparr>\<rparr>"
      using r(5) by (simp add: s1_def)
    ultimately show ?thesis using r(2) unfolding m by blast
  qed
qed

lemma pop_loop_overrun:
  assumes "ring_ok s" and "popped \<le> len" and "popped \<le> length p"
    and "length p < popped + min (len - popped) (ring_count s)"
  shows "pop_loop p len popped s = Inl CallerBufferOverrun"
  using assms
proof (induction "len - popped" arbitrary: popped s p)
  case 0
  then show ?case by simp
next
  case (Suc n)
  then have lt: "popped < len" and nz: "ring_count s \<noteq> 0" by auto
  let ?T = "unat (tail (s_ring s))" and ?C = "unat (capacity (s_ring s))"
  from Suc.prems(1) have C: "?C \<noteq> 0" and T: "?T < RING_STORAGE_SIZE"
    by (simp_all add: ring_ok_def)
  from nz Suc.prems(1) have ne: "\<not> prv_ring_empty s"
    by (simp add: ring_ok_empty_iff)
  from ring_next_Inr [OF C, of "tail (s_ring s)"] obtain t where
    t: "ring_next (tail (s_ring s)) (capacity (s_ring s)) = Inr t"
       "unat t = (?T + 1) mod ?C"
    by blast
  show ?case
  proof (cases "popped < length p")
    case False
    then show ?thesis
      using lt ne by (subst pop_loop.simps) simp
  next
    case True
    define s1 where "s1 = s\<lparr>s_ring := (s_ring s)\<lparr>tail := t\<rparr>\<rparr>"
    define p1 where "p1 = p[popped := s_ring_storage s ! ?T]"
    note step = pop_step [OF Suc.prems(1) t(2) ne, folded s1_def]
    have "pop_loop p len popped s = pop_loop p1 len (Suc popped) s1"
      using lt ne True T t(1)
      by (subst pop_loop.simps) (simp add: s1_def p1_def)
    moreover have "pop_loop p1 len (Suc popped) s1 = Inl CallerBufferOverrun"
    proof (rule Suc.hyps(1))
      show "n = len - Suc popped" using Suc.hyps(2) by simp
      show "ring_ok s1" by (rule step(1))
      show "Suc popped \<le> len" using lt by simp
      show "Suc popped \<le> length p1" using True by (simp add: p1_def)
      show "length p1 < Suc popped + min (len - Suc popped) (ring_count s1)"
        using Suc.prems(4) lt nz step(2) by (simp add: p1_def)
    qed
    ultimately show ?thesis by simp
  qed
qed

section \<open>What the loops leave alone\<close>

lemma prv_log_fields [simp]:
  "g_config (prv_log l f a s) = g_config s"
  "g_total_bytes_pushed (prv_log l f a s) = g_total_bytes_pushed s"
  "g_total_bytes_popped (prv_log l f a s) = g_total_bytes_popped s"
  "s_ring_storage (prv_log l f a s) = s_ring_storage s"
  "s_ring (prv_log l f a s) = s_ring s"
  "s_log_level (prv_log l f a s) = s_log_level s"
  "s_crc_table_ready (prv_log l f a s) = s_crc_table_ready s"
  "s_crc16_table (prv_log l f a s) = s_crc16_table s"
  "s_prng_state (prv_log l f a s) = s_prng_state s"
  "s_stats (prv_log l f a s) = s_stats s"
  by (simp_all add: prv_log_def)

lemma ring_abs_cong:
  assumes "s_ring s' = s_ring s" and "s_ring_storage s' = s_ring_storage s"
  shows "ring_ok s' = ring_ok s" and "ring_count s' = ring_count s"
    and "ring_contents s' = ring_contents s" and "ring_free s' = ring_free s"
    and "prv_ring_empty s' = prv_ring_empty s" and "prv_ring_full s' = prv_ring_full s"
  using assms
  by (auto simp: ring_ok_def ring_count_def ring_contents_def ring_free_def
      prv_ring_empty_def prv_ring_full_def split: sum.splits)

lemma push_loop_frame:
  "push_loop p len pushed s = Inr (s', r) \<Longrightarrow>
     \<exists>st h. s' = s\<lparr>s_ring_storage := st, s_ring := (s_ring s)\<lparr>head := h\<rparr>\<rparr>"
proof (induction "len - pushed" arbitrary: pushed s)
  case 0
  then have "s' = s"
    by (subst (asm) push_loop.simps) simp
  then have "s' = s\<lparr>s_ring_storage := s_ring_storage s, s_ring := (s_ring s)\<lparr>head := head (s_ring s)\<rparr>\<rparr>"
    by simp
  then show ?case by blast
next
  case (Suc n)
  from Suc.prems have "s' = s \<or>
      (\<exists>h. push_loop p len (Suc pushed)
              (s\<lparr>s_ring_storage := (s_ring_storage s)[unat (head (s_ring s)) := p ! pushed],
                 s_ring := (s_ring s)\<lparr>head := h\<rparr>\<rparr>) = Inr (s', r))"
    by (subst (asm) push_loop.simps) (auto split: sum.splits if_splits)
  then show ?case
  proof
    assume "s' = s"
    then have "s' = s\<lparr>s_ring_storage := s_ring_storage s, s_ring := (s_ring s)\<lparr>head := head (s_ring s)\<rparr>\<rparr>"
      by simp
    then show ?thesis by blast
  next
    assume "\<exists>h. push_loop p len (Suc pushed)
              (s\<lparr>s_ring_storage := (s_ring_storage s)[unat (head (s_ring s)) := p ! pushed],
                 s_ring := (s_ring s)\<lparr>head := h\<rparr>\<rparr>) = Inr (s', r)"
    then obtain h where r: "push_loop p len (Suc pushed)
              (s\<lparr>s_ring_storage := (s_ring_storage s)[unat (head (s_ring s)) := p ! pushed],
                 s_ring := (s_ring s)\<lparr>head := h\<rparr>\<rparr>) = Inr (s', r)"
      by blast
    have "n = len - Suc pushed" using Suc.hyps(2) by simp
    from Suc.hyps(1) [OF this r] obtain st h' where
      "s' = s\<lparr>s_ring_storage := (s_ring_storage s)[unat (head (s_ring s)) := p ! pushed],
                 s_ring := (s_ring s)\<lparr>head := h\<rparr>\<rparr>
              \<lparr>s_ring_storage := st,
               s_ring := (s_ring (s\<lparr>s_ring_storage := (s_ring_storage s)[unat (head (s_ring s)) := p ! pushed],
                 s_ring := (s_ring s)\<lparr>head := h\<rparr>\<rparr>))\<lparr>head := h'\<rparr>\<rparr>"
      by blast
    then have "s' = s\<lparr>s_ring_storage := st, s_ring := (s_ring s)\<lparr>head := h'\<rparr>\<rparr>"
      by simp
    then show ?thesis by blast
  qed
qed

lemma pop_loop_frame:
  "pop_loop p len popped s = Inr (s', p', r) \<Longrightarrow> \<exists>t. s' = s\<lparr>s_ring := (s_ring s)\<lparr>tail := t\<rparr>\<rparr>"
proof (induction "len - popped" arbitrary: popped s p)
  case 0
  then have "s' = s"
    by (subst (asm) pop_loop.simps) simp
  then have "s' = s\<lparr>s_ring := (s_ring s)\<lparr>tail := tail (s_ring s)\<rparr>\<rparr>"
    by simp
  then show ?case by blast
next
  case (Suc n)
  from Suc.prems have "s' = s \<or>
      (\<exists>t. pop_loop (p[popped := s_ring_storage s ! unat (tail (s_ring s))]) len (Suc popped)
              (s\<lparr>s_ring := (s_ring s)\<lparr>tail := t\<rparr>\<rparr>) = Inr (s', p', r))"
    by (subst (asm) pop_loop.simps) (auto split: sum.splits if_splits)
  then show ?case
  proof
    assume "s' = s"
    then have "s' = s\<lparr>s_ring := (s_ring s)\<lparr>tail := tail (s_ring s)\<rparr>\<rparr>"
      by simp
    then show ?thesis by blast
  next
    assume "\<exists>t. pop_loop (p[popped := s_ring_storage s ! unat (tail (s_ring s))]) len (Suc popped)
              (s\<lparr>s_ring := (s_ring s)\<lparr>tail := t\<rparr>\<rparr>) = Inr (s', p', r)"
    then obtain t where r: "pop_loop (p[popped := s_ring_storage s ! unat (tail (s_ring s))]) len (Suc popped)
              (s\<lparr>s_ring := (s_ring s)\<lparr>tail := t\<rparr>\<rparr>) = Inr (s', p', r)"
      by blast
    have "n = len - Suc popped" using Suc.hyps(2) by simp
    from Suc.hyps(1) [OF this r] obtain t' where
      "s' = s\<lparr>s_ring := (s_ring s)\<lparr>tail := t\<rparr>\<rparr>
              \<lparr>s_ring := (s_ring (s\<lparr>s_ring := (s_ring s)\<lparr>tail := t\<rparr>\<rparr>))\<lparr>tail := t'\<rparr>\<rparr>"
      by blast
    then have "s' = s\<lparr>s_ring := (s_ring s)\<lparr>tail := t'\<rparr>\<rparr>"
      by simp
    then show ?thesis by blast
  qed
qed

section \<open>Push and pop on a configured ring\<close>

lemma length_ring_contents [simp]: "length (ring_contents s) = ring_count s"
  by (simp add: ring_contents_def)

lemma ring_push_total:
  assumes ok: "ring_ok s" and fit: "min len (ring_free s) \<le> length p"
  shows "\<exists>s'. ring_push (Some p) len s = Inr (s', min len (ring_free s)) \<and>
           ring_ok s' \<and>
           ring_count s' = ring_count s + min len (ring_free s) \<and>
           ring_contents s' = ring_contents s @ take (min len (ring_free s)) p \<and>
           g_total_bytes_pushed s' = g_total_bytes_pushed s + of_nat (min len (ring_free s)) \<and>
           g_total_bytes_popped s' = g_total_bytes_popped s \<and>
           capacity (s_ring s') = capacity (s_ring s) \<and>
           tail (s_ring s') = tail (s_ring s)"
proof (cases "len = 0")
  case True
  then show ?thesis using ok by (simp add: ring_push_def)
next
  case False
  from push_loop_total [of s 0 len p] ok fit obtain s1 st h where
    l: "push_loop p len 0 s = Inr (s1, min len (ring_free s))"
       "ring_ok s1"
       "ring_count s1 = ring_count s + min len (ring_free s)"
       "ring_contents s1 = ring_contents s @ take (min len (ring_free s)) p"
       "s1 = s\<lparr>s_ring_storage := st, s_ring := (s_ring s)\<lparr>head := h\<rparr>\<rparr>"
    by auto
  define s2 where "s2 = s1\<lparr>g_total_bytes_pushed := g_total_bytes_pushed s1 + of_nat (min len (ring_free s))\<rparr>"
  define s3 where "s3 = (if min len (ring_free s) < len
                           then prv_log LOG_WARN ''ring_push: truncated (wanted=%zu, pushed=%zu)''
                                  [Arg_nat len, Arg_nat (min len (ring_free s))] s2
                           else s2)"
  have r: "ring_push (Some p) len s = Inr (s3, min len (ring_free s))"
    using False l(1) by (simp add: ring_push_def s3_def s2_def Let_def)
  have f: "s_ring s3 = s_ring s1" "s_ring_storage s3 = s_ring_storage s1"
    by (simp_all add: s3_def s2_def)
  have "g_total_bytes_pushed s3 = g_total_bytes_pushed s + of_nat (min len (ring_free s))"
    and "g_total_bytes_popped s3 = g_total_bytes_popped s"
    and "capacity (s_ring s3) = capacity (s_ring s)"
    and "tail (s_ring s3) = tail (s_ring s)"
    by (simp_all add: s3_def s2_def l(5))
  with r l(2,3,4) show ?thesis
    by (simp add: ring_abs_cong [OF f])
qed

lemma ring_push_overrun:
  assumes "ring_ok s" and "length p < min len (ring_free s)"
  shows "ring_push (Some p) len s = Inl CallerBufferOverrun"
  using push_loop_overrun [of s 0 len p] assms by (auto simp: ring_push_def)

lemma ring_pop_total:
  assumes ok: "ring_ok s" and fit: "min len (ring_count s) \<le> length p"
  shows "\<exists>s'. ring_pop (Some p) len s =
             Inr (s', Some (take (min len (ring_count s)) (ring_contents s)
                              @ drop (min len (ring_count s)) p),
                  min len (ring_count s)) \<and>
           ring_ok s' \<and>
           ring_count s' = ring_count s - min len (ring_count s) \<and>
           ring_contents s' = drop (min len (ring_count s)) (ring_contents s) \<and>
           g_total_bytes_popped s' = g_total_bytes_popped s + of_nat (min len (ring_count s)) \<and>
           g_total_bytes_pushed s' = g_total_bytes_pushed s \<and>
           capacity (s_ring s') = capacity (s_ring s) \<and>
           head (s_ring s') = head (s_ring s)"
proof (cases "len = 0")
  case True
  then show ?thesis using ok by (simp add: ring_pop_def)
next
  case False
  from pop_loop_total [of s 0 len p] ok fit obtain s1 t where
    l: "pop_loop p len 0 s =
          Inr (s1, take (min len (ring_count s)) (ring_contents s) @ drop (min len (ring_count s)) p,
               min len (ring_count s))"
       "ring_ok s1"
       "ring_count s1 = ring_count s - min len (ring_count s)"
       "ring_contents s1 = drop (min len (ring_count s)) (ring_contents s)"
       "s1 = s\<lparr>s_ring := (s_ring s)\<lparr>tail := t\<rparr>\<rparr>"
    by auto
  define s2 where "s2 = s1\<lparr>g_total_bytes_popped := g_total_bytes_popped s1 + of_nat (min len (ring_count s))\<rparr>"
  have r: "ring_pop (Some p) len s =
             Inr (s2, Some (take (min len (ring_count s)) (ring_contents s) @ drop (min len (ring_count s)) p),
                  min len (ring_count s))"
    using False l(1) by (simp add: ring_pop_def s2_def)
  have f: "s_ring s2 = s_ring s1" "s_ring_storage s2 = s_ring_storage s1"
    by (simp_all add: s2_def)
  have "g_total_bytes_popped s2 = g_total_bytes_popped s + of_nat (min len (ring_count s))"
    and "g_total_bytes_pushed s2 = g_total_bytes_pushed s"
    and "capacity (s_ring s2) = capacity (s_ring s)"
    and "head (s_ring s2) = head (s_ring s)"
    by (simp_all add: s2_def l(5))
  with r l(2,3,4) show ?thesis
    by (simp add: ring_abs_cong [OF f])
qed

lemma ring_pop_overrun:
  assumes "ring_ok s" and "length p < min len (ring_count s)"
  shows "ring_pop (Some p) len s = Inl CallerBufferOverrun"
  using pop_loop_overrun [of s 0 len p] assms by (auto simp: ring_pop_def)

lemma ring_push_Inr:
  assumes ok: "ring_ok s" and r: "ring_push data len s = Inr (s', k)"
  shows "ring_ok s'" and "ring_count s' = ring_count s + k"
    and "g_total_bytes_pushed s' = g_total_bytes_pushed s + of_nat k"
    and "g_total_bytes_popped s' = g_total_bytes_popped s"
    and "capacity (s_ring s') = capacity (s_ring s)"
proof -
  have "ring_ok s' \<and> ring_count s' = ring_count s + k \<and>
        g_total_bytes_pushed s' = g_total_bytes_pushed s + of_nat k \<and>
        g_total_bytes_popped s' = g_total_bytes_popped s \<and>
        capacity (s_ring s') = capacity (s_ring s)"
  proof (cases data)
    case None
    then show ?thesis using ok r by (simp add: ring_push_def)
  next
    case (Some p)
    show ?thesis
    proof (cases "min len (ring_free s) \<le> length p")
      case True
      from ring_push_total [OF ok True] r Some show ?thesis by auto
    next
      case False
      then have "length p < min len (ring_free s)" by (simp add: min_def split: if_splits)
      from ring_push_overrun [OF ok this] r Some show ?thesis by simp
    qed
  qed
  then show "ring_ok s'" and "ring_count s' = ring_count s + k"
    and "g_total_bytes_pushed s' = g_total_bytes_pushed s + of_nat k"
    and "g_total_bytes_popped s' = g_total_bytes_popped s"
    and "capacity (s_ring s') = capacity (s_ring s)"
    by simp_all
qed

lemma ring_pop_Inr:
  assumes ok: "ring_ok s" and r: "ring_pop out len s = Inr (s', out', k)"
  shows "ring_ok s'" and "ring_count s' = ring_count s - k" and "k \<le> ring_count s"
    and "g_total_bytes_popped s' = g_total_bytes_popped s + of_nat k"
    and "g_total_bytes_pushed s' = g_total_bytes_pushed s"
    and "capacity (s_ring s') = capacity (s_ring s)"
proof -
  have "ring_ok s' \<and> ring_count s' = ring_count s - k \<and> k \<le> ring_count s \<and>
        g_total_bytes_popped s' = g_total_bytes_popped s + of_nat k \<and>
        g_total_bytes_pushed s' = g_total_bytes_pushed s \<and>
        capacity (s_ring s') = capacity (s_ring s)"
  proof (cases out)
    case None
    then show ?thesis using ok r by (simp add: ring_pop_def)
  next
    case (Some p)
    show ?thesis
    proof (cases "min len (ring_count s) \<le> length p")
      case True
      from ring_pop_total [OF ok True] r Some show ?thesis by auto
    next
      case False
      then have "length p < min len (ring_count s)" by (simp add: min_def split: if_splits)
      from ring_pop_overrun [OF ok this] r Some show ?thesis by simp
    qed
  qed
  then show "ring_ok s'" and "ring_count s' = ring_count s - k" and "k \<le> ring_count s"
    and "g_total_bytes_popped s' = g_total_bytes_popped s + of_nat k"
    and "g_total_bytes_pushed s' = g_total_bytes_pushed s"
    and "capacity (s_ring s') = capacity (s_ring s)"
    by simp_all
qed

lemma ring_ok_free_empty:
  "ring_ok s \<Longrightarrow> prv_ring_empty s \<Longrightarrow> ring_free s = unat (capacity (s_ring s)) - 1"
  by (simp add: ring_ok_empty_iff ring_free_def)

lemma ring_contents_empty: "ring_count s = 0 \<Longrightarrow> ring_contents s = []"
  by (simp add: ring_contents_def)

lemma push_unconfigured:
  assumes "capacity (s_ring s) = 0" and "0 < len"
  shows "ring_push (Some p) len s = Inl DivByZero"
proof -
  have "prv_ring_full s = Inl DivByZero"
    using assms(1) by (simp add: prv_ring_full_def ring_next_def)
  then have "push_loop p len 0 s = Inl DivByZero"
    using assms(2) by (subst push_loop.simps) simp
  then show ?thesis using assms(2) by (simp add: ring_push_def)
qed

text \<open>Two concrete configured states: after \<open>module_init(NULL)\<close>, and after a reconfiguration to four slots.\<close>

lemma init_configured:
  "ring_ok (fst (module_init None init_state))"
  "prv_ring_empty (fst (module_init None init_state))"
  "capacity (s_ring (fst (module_init None init_state))) = 256"
  by (simp_all add: module_init_def init_state_def Let_def ring_ok_def prv_ring_empty_def
      RING_STORAGE_SIZE_def)

lemma small_configured:
  "ring_ok (fst (module_set_config (Some ((g_config init_state)\<lparr>ring_capacity := 4\<rparr>)) init_state))"
  "ring_free (fst (module_set_config (Some ((g_config init_state)\<lparr>ring_capacity := 4\<rparr>)) init_state)) = 3"
  "ring_count (fst (module_set_config (Some ((g_config init_state)\<lparr>ring_capacity := 4\<rparr>)) init_state)) = 0"
  by (simp_all add: module_set_config_def init_state_def Let_def ring_ok_def ring_free_def
      ring_count_def RING_STORAGE_SIZE_def)

section \<open>Round trip\<close>

text \<open>
  Claim C2. In a configured ring that is empty, pushing a byte sequence \<open>bs\<close> of at
  most \<open>capacity - 1\<close> bytes accepts all of it, and popping \<open>length bs\<close> bytes into
  a buffer \<open>out\<close> then returns \<open>length bs\<close>, leaves the bytes of \<open>bs\<close> in order at
  the front of \<open>out\<close>, and leaves the ring empty.
\<close>

theorem ring_round_trip:
  assumes ok: "ring_ok s" and empty: "prv_ring_empty s"
    and fit: "length bs \<le> unat (capacity (s_ring s)) - 1"
    and out: "length bs \<le> length out"
  shows "\<exists>s1 s2. ring_push (Some bs) (length bs) s = Inr (s1, length bs) \<and>
           ring_pop (Some out) (length bs) s1 = Inr (s2, Some (bs @ drop (length bs) out), length bs) \<and>
           prv_ring_empty s2"
proof -
  have c0: "ring_count s = 0" using ok empty by (simp add: ring_ok_empty_iff)
  have m: "min (length bs) (ring_free s) = length bs"
    using fit ring_ok_free_empty [OF ok empty] by simp
  from ring_push_total [OF ok, of "length bs" bs] m obtain s1 where
    p: "ring_push (Some bs) (length bs) s = Inr (s1, length bs)" "ring_ok s1"
       "ring_count s1 = length bs" "ring_contents s1 = bs"
    using c0 by (auto simp: ring_contents_empty)
  have m1: "min (length bs) (ring_count s1) = length bs" using p(3) by simp
  from ring_pop_total [OF p(2), of "length bs" out] out obtain s2 where
    q: "ring_pop (Some out) (length bs) s1 = Inr (s2, Some (bs @ drop (length bs) out), length bs)"
       "ring_ok s2" "ring_count s2 = 0"
    by (auto simp: m1 p(3,4))
  from q(2,3) have "prv_ring_empty s2" by (simp add: ring_ok_empty_iff)
  with p(1) q(1) show ?thesis by blast
qed

theorem ring_round_trip_witness:
  "ring_ok (fst (module_init None init_state)) \<and>
   prv_ring_empty (fst (module_init None init_state)) \<and>
   length [1, 2, 3 :: u8] \<le> unat (capacity (s_ring (fst (module_init None init_state)))) - 1 \<and>
   length [1, 2, 3 :: u8] \<le> length [0, 0, 0, 0 :: u8] \<and>
   (\<exists>s1 s2. ring_push (Some [1, 2, 3]) 3 (fst (module_init None init_state)) = Inr (s1, 3) \<and>
       ring_pop (Some [0, 0, 0, 0]) 3 s1 = Inr (s2, Some [1, 2, 3, 0], 3) \<and>
       prv_ring_empty s2)"
proof -
  have h1: "ring_ok (fst (module_init None init_state))"
    and h2: "prv_ring_empty (fst (module_init None init_state))"
    by (rule init_configured)+
  have h3: "length [1, 2, 3 :: u8] \<le> unat (capacity (s_ring (fst (module_init None init_state)))) - 1"
    by (simp add: init_configured(3))
  have h4: "length [1, 2, 3 :: u8] \<le> length [0, 0, 0, 0 :: u8]"
    by simp
  from ring_round_trip [OF h1 h2 h3 h4] h1 h2 h3 h4 show ?thesis
    by (simp add: eval_nat_numeral)
qed

section \<open>Truncation\<close>

text \<open>
  Claim C3. In a configured ring with \<open>k\<close> free slots, pushing \<open>n > k\<close> bytes returns
  exactly \<open>k\<close> as an ordinary result, adds \<open>k\<close> to \<open>g_total_bytes_pushed\<close>
  (modulo \<open>2^64\<close>), and the bytes that later pops deliver are the ones queued before,
  followed by the first \<open>k\<close> bytes of the input in order and nothing more: a pop that
  asks for \<open>n\<close> bytes after the old ones were drained gets those \<open>k\<close> and empties the
  ring.
\<close>

theorem ring_push_truncates:
  assumes ok: "ring_ok s" and k: "k = ring_free s" and n: "n = length data" and lt: "k < n"
    and o1: "length out1 = ring_count s" and o2: "length out2 = n"
  shows "\<exists>s1 s2 s3.
           ring_push (Some data) n s = Inr (s1, k) \<and>
           g_total_bytes_pushed s1 = g_total_bytes_pushed s + of_nat k \<and>
           ring_pop (Some out1) (ring_count s) s1 = Inr (s2, Some (ring_contents s), ring_count s) \<and>
           ring_pop (Some out2) n s2 = Inr (s3, Some (take k data @ drop k out2), k) \<and>
           prv_ring_empty s3"
proof -
  have m: "min n (ring_free s) = k" using k lt by simp
  have "min n (ring_free s) \<le> length data" using n by simp
  from ring_push_total [OF ok this] obtain s1 where
    p: "ring_push (Some data) n s = Inr (s1, k)" "ring_ok s1"
       "ring_count s1 = ring_count s + k" "ring_contents s1 = ring_contents s @ take k data"
       "g_total_bytes_pushed s1 = g_total_bytes_pushed s + of_nat k"
    unfolding m by blast
  have m1: "min (ring_count s) (ring_count s1) = ring_count s" using p(3) by simp
  have "min (ring_count s) (ring_count s1) \<le> length out1" using o1 by simp
  from ring_pop_total [OF p(2) this] obtain s2 where
    q: "ring_pop (Some out1) (ring_count s) s1 = Inr (s2, Some (ring_contents s), ring_count s)"
       "ring_ok s2" "ring_count s2 = k" "ring_contents s2 = take k data"
    unfolding m1 using o1 by (auto simp: p(3,4))
  have m2: "min n (ring_count s2) = k" using q(3) lt by simp
  have "min n (ring_count s2) \<le> length out2" using o2 by simp
  from ring_pop_total [OF q(2) this] obtain s3 where
    r: "ring_pop (Some out2) n s2 = Inr (s3, Some (take k data @ drop k out2), k)"
       "ring_ok s3" "ring_count s3 = 0"
    unfolding m2 using lt n by (auto simp: q(3,4))
  from r(2,3) have "prv_ring_empty s3" by (simp add: ring_ok_empty_iff)
  with p(1,5) q(1) r(1) show ?thesis by blast
qed

theorem ring_push_truncates_witness:
  "ring_ok (fst (module_set_config (Some ((g_config init_state)\<lparr>ring_capacity := 4\<rparr>)) init_state)) \<and>
   (3 :: nat) < 5 \<and>
   (\<exists>s1 s2 s3.
      ring_push (Some [1, 2, 3, 4, 5]) 5
        (fst (module_set_config (Some ((g_config init_state)\<lparr>ring_capacity := 4\<rparr>)) init_state))
        = Inr (s1, 3) \<and>
      g_total_bytes_pushed s1 = 3 \<and>
      ring_pop (Some []) 0 s1 = Inr (s2, Some [], 0) \<and>
      ring_pop (Some [0, 0, 0, 0, 0]) 5 s2 = Inr (s3, Some [1, 2, 3, 0, 0], 3) \<and>
      prv_ring_empty s3)"
proof -
  let ?s = "fst (module_set_config (Some ((g_config init_state)\<lparr>ring_capacity := 4\<rparr>)) init_state)"
  have h1: "ring_ok ?s" by (rule small_configured)
  have h2: "3 = ring_free ?s" by (simp add: small_configured)
  have h3: "5 = length [1, 2, 3, 4, 5 :: u8]" by simp
  have h4: "(3 :: nat) < 5" by simp
  have h5: "length ([] :: u8 list) = ring_count ?s" by (simp add: small_configured)
  have h6: "length [0, 0, 0, 0, 0 :: u8] = 5" by simp
  have g: "g_total_bytes_pushed ?s = 0"
    by (simp add: module_set_config_def init_state_def Let_def)
  note e = ring_contents_empty [OF small_configured(3)]
  from ring_push_truncates [OF h1 h2 h3 h4 h5 h6] h1 show ?thesis
    by (simp add: small_configured g e eval_nat_numeral)
qed

section \<open>Safety of the index arithmetic\<close>



section \<open>Configuration\<close>

lemma configure_result:
  assumes "conf = module_set_config (Some cfg) \<or> conf = module_init (Some cfg) \<or>
           (conf = module_init None \<and> cfg = g_config s)"
  shows "snd (conf s) \<longleftrightarrow> 1 \<le> unat (ring_capacity cfg) \<and> unat (ring_capacity cfg) \<le> 1024"
    and "\<not> snd (conf s) \<Longrightarrow> fst (conf s) = s"
    and "snd (conf s) \<Longrightarrow> s_ring (fst (conf s)) = \<lparr>head = 0, tail = 0, capacity = ring_capacity cfg\<rparr>"
    and "s_ring_storage (fst (conf s)) = s_ring_storage s"
    and "g_total_bytes_pushed (fst (conf s)) = g_total_bytes_pushed s"
    and "g_total_bytes_popped (fst (conf s)) = g_total_bytes_popped s"
  using assms
  by (auto simp: module_set_config_def module_init_def Let_def RING_STORAGE_SIZE_def
      unat_eq_0 not_less Suc_le_eq unat_gt_0 split: if_splits)


lemma configured_ring_ok:
  assumes "s_ring s = \<lparr>head = 0, tail = 0, capacity = c\<rparr>"
    and "1 \<le> unat c" and "unat c \<le> 1024" and "length (s_ring_storage s) = 1024"
  shows "ring_ok s" and "ring_count s = 0" and "ring_free s = unat c - 1"
  using assms by (simp_all add: ring_ok_def ring_count_def ring_free_def RING_STORAGE_SIZE_def)

lemma set_config_None: "module_set_config None s = (s, False)"
  by (simp add: module_set_config_def)

text \<open>
  Claim C5. A configuration call (\<open>module_set_config\<close> with a configuration, or
  \<open>module_init\<close> with one or with the current \<open>g_config\<close>) succeeds exactly when the
  requested capacity is between 1 and 1024. When it fails it returns \<open>False\<close> and the
  whole state, log output included, is as before. When it succeeds \<open>head\<close> and \<open>tail\<close>
  are 0, the capacity is the requested one and the usable payload capacity is one less:
  that many slots are free, and a push of \<open>len\<close> bytes accepts \<open>min len (c - 1)\<close>.
\<close>

theorem configure_capacity_bound:
  assumes conf: "conf = module_set_config (Some cfg) \<or> conf = module_init (Some cfg) \<or>
                 (conf = module_init None \<and> cfg = g_config s)"
    and res: "conf s = (s', ok)"
  shows "(ok \<longleftrightarrow> 1 \<le> unat (ring_capacity cfg) \<and> unat (ring_capacity cfg) \<le> 1024) \<and>
         (\<not> ok \<longrightarrow> s' = s) \<and>
         (ok \<longrightarrow>
            head (s_ring s') = 0 \<and> tail (s_ring s') = 0 \<and>
            capacity (s_ring s') = ring_capacity cfg \<and>
            ring_free s' = unat (ring_capacity cfg) - 1 \<and>
            (length (s_ring_storage s) = 1024 \<longrightarrow>
               (\<forall>p len. len \<le> length p \<longrightarrow>
                  (\<exists>s''. ring_push (Some p) len s' =
                           Inr (s'', min len (unat (ring_capacity cfg) - 1))))))"
proof (intro conjI impI allI)
  from res have f: "s' = fst (conf s)" "ok = snd (conf s)" by simp_all
  note c = configure_result [OF conf]
  show "ok \<longleftrightarrow> 1 \<le> unat (ring_capacity cfg) \<and> unat (ring_capacity cfg) \<le> 1024"
    using c(1) f by simp
  show "s' = s" if "\<not> ok" using that c(2) f by simp
  assume ok
  then have r: "s_ring s' = \<lparr>head = 0, tail = 0, capacity = ring_capacity cfg\<rparr>"
    and b: "1 \<le> unat (ring_capacity cfg)" "unat (ring_capacity cfg) \<le> 1024"
    using c(1,3) f by simp_all
  from r show "head (s_ring s') = 0" "tail (s_ring s') = 0"
    "capacity (s_ring s') = ring_capacity cfg"
    by simp_all
  from r show "ring_free s' = unat (ring_capacity cfg) - 1"
    by (simp add: ring_free_def ring_count_def)
  fix p :: "u8 list" and len
  assume "length (s_ring_storage s) = 1024" and len: "len \<le> length p"
  then have "length (s_ring_storage s') = 1024" using c(4) f by simp
  note k = configured_ring_ok [OF r b this]
  from len have "min len (ring_free s') \<le> length p" by (simp add: min_def)
  from ring_push_total [OF k(1) this]
  show "\<exists>s''. ring_push (Some p) len s' = Inr (s'', min len (unat (ring_capacity cfg) - 1))"
    unfolding k(3) by blast
qed

theorem configure_capacity_bound_witness:
  "module_set_config (Some ((g_config init_state)\<lparr>ring_capacity := 4\<rparr>)) init_state
     = (fst (module_set_config (Some ((g_config init_state)\<lparr>ring_capacity := 4\<rparr>)) init_state), True) \<and>
   length (s_ring_storage init_state) = 1024 \<and>
   (\<exists>s''. ring_push (Some [1, 2, 3, 4, 5]) 5
            (fst (module_set_config (Some ((g_config init_state)\<lparr>ring_capacity := 4\<rparr>)) init_state))
          = Inr (s'', 3)) \<and>
   module_set_config (Some ((g_config init_state)\<lparr>ring_capacity := 0\<rparr>)) init_state
     = (init_state, False) \<and>
   module_set_config (Some ((g_config init_state)\<lparr>ring_capacity := 1025\<rparr>)) init_state
     = (init_state, False)"
proof -
  let ?c = "(g_config init_state)\<lparr>ring_capacity := 4\<rparr>"
  have a: "module_set_config (Some ?c) init_state = (fst (module_set_config (Some ?c) init_state), True)"
    by (simp add: module_set_config_def Let_def RING_STORAGE_SIZE_def)
  have l: "length (s_ring_storage init_state) = 1024"
    by (simp add: init_state_def)
  have z: "module_set_config (Some ((g_config init_state)\<lparr>ring_capacity := 0\<rparr>)) init_state
             = (init_state, False)"
    "module_set_config (Some ((g_config init_state)\<lparr>ring_capacity := 1025\<rparr>)) init_state
             = (init_state, False)"
    by (simp_all add: module_set_config_def RING_STORAGE_SIZE_def)
  have "len \<le> length p \<longrightarrow>
          (\<exists>s''. ring_push (Some p) len (fst (module_set_config (Some ?c) init_state))
                   = Inr (s'', min len (unat (ring_capacity ?c) - 1)))"
    for p len
    using configure_capacity_bound [of "module_set_config (Some ?c)" ?c init_state, OF _ a] l
    by blast
  from this [of 5 "[1, 2, 3, 4, 5]"] a l z show ?thesis
    by simp
qed

section \<open>What each call leaves alone\<close>

lemma ring_push_frame:
  assumes "ring_push data len s = Inr (s', k)"
  shows "g_total_bytes_pushed s' = g_total_bytes_pushed s + of_nat k"
    and "g_total_bytes_popped s' = g_total_bytes_popped s"
    and "capacity (s_ring s') = capacity (s_ring s)"
    and "tail (s_ring s') = tail (s_ring s)"
    and "s_crc_table_ready s' = s_crc_table_ready s"
    and "s_crc16_table s' = s_crc16_table s"
proof -
  have "g_total_bytes_pushed s' = g_total_bytes_pushed s + of_nat k \<and>
        g_total_bytes_popped s' = g_total_bytes_popped s \<and>
        capacity (s_ring s') = capacity (s_ring s) \<and>
        tail (s_ring s') = tail (s_ring s) \<and>
        s_crc_table_ready s' = s_crc_table_ready s \<and>
        s_crc16_table s' = s_crc16_table s"
  proof (cases "data = None \<or> len = 0")
    case True
    then show ?thesis using assms by (auto simp: ring_push_def split: option.splits)
  next
    case False
    then obtain p where p: "data = Some p" and len: "len \<noteq> 0" by auto
    have "\<exists>s1. push_loop p len 0 s = Inr (s1, k) \<and>
            s' = (if k < len
                     then prv_log LOG_WARN ''ring_push: truncated (wanted=%zu, pushed=%zu)'' [Arg_nat len, Arg_nat k]
                            (s1\<lparr>g_total_bytes_pushed := g_total_bytes_pushed s1 + of_nat k\<rparr>)
                     else s1\<lparr>g_total_bytes_pushed := g_total_bytes_pushed s1 + of_nat k\<rparr>)"
    proof (cases "push_loop p len 0 s")
      case (Inl e)
      then show ?thesis using assms p len by (simp add: ring_push_def)
    next
      case (Inr x)
      then show ?thesis using assms p len
        by (cases x) (simp add: ring_push_def Let_def split: if_splits)
    qed
    then obtain s1 where
      l: "push_loop p len 0 s = Inr (s1, k)"
      and s': "s' = (if k < len
                     then prv_log LOG_WARN ''ring_push: truncated (wanted=%zu, pushed=%zu)'' [Arg_nat len, Arg_nat k]
                            (s1\<lparr>g_total_bytes_pushed := g_total_bytes_pushed s1 + of_nat k\<rparr>)
                     else s1\<lparr>g_total_bytes_pushed := g_total_bytes_pushed s1 + of_nat k\<rparr>)"
      by blast
    from push_loop_frame [OF l] obtain st h where
      "s1 = s\<lparr>s_ring_storage := st, s_ring := (s_ring s)\<lparr>head := h\<rparr>\<rparr>"
      by blast
    then show ?thesis by (simp add: s')
  qed
  then show "g_total_bytes_pushed s' = g_total_bytes_pushed s + of_nat k"
    and "g_total_bytes_popped s' = g_total_bytes_popped s"
    and "capacity (s_ring s') = capacity (s_ring s)"
    and "tail (s_ring s') = tail (s_ring s)"
    and "s_crc_table_ready s' = s_crc_table_ready s"
    and "s_crc16_table s' = s_crc16_table s"
    by simp_all
qed

lemma ring_pop_frame:
  assumes "ring_pop out len s = Inr (s', out', k)"
  shows "g_total_bytes_popped s' = g_total_bytes_popped s + of_nat k"
    and "g_total_bytes_pushed s' = g_total_bytes_pushed s"
    and "capacity (s_ring s') = capacity (s_ring s)"
    and "head (s_ring s') = head (s_ring s)"
    and "s_crc_table_ready s' = s_crc_table_ready s"
    and "s_crc16_table s' = s_crc16_table s"
    and "s_ring_storage s' = s_ring_storage s"
proof -
  have "g_total_bytes_popped s' = g_total_bytes_popped s + of_nat k \<and>
        g_total_bytes_pushed s' = g_total_bytes_pushed s \<and>
        capacity (s_ring s') = capacity (s_ring s) \<and>
        head (s_ring s') = head (s_ring s) \<and>
        s_crc_table_ready s' = s_crc_table_ready s \<and>
        s_crc16_table s' = s_crc16_table s \<and>
        s_ring_storage s' = s_ring_storage s"
  proof (cases "out = None \<or> len = 0")
    case True
    then show ?thesis using assms by (auto simp: ring_pop_def split: option.splits)
  next
    case False
    then obtain p where p: "out = Some p" and len: "len \<noteq> 0" by auto
    have "\<exists>s1 p1. pop_loop p len 0 s = Inr (s1, p1, k) \<and>
            s' = s1\<lparr>g_total_bytes_popped := g_total_bytes_popped s1 + of_nat k\<rparr>"
    proof (cases "pop_loop p len 0 s")
      case (Inl e)
      then show ?thesis using assms p len by (simp add: ring_pop_def)
    next
      case (Inr x)
      then show ?thesis using assms p len
        by (cases x) (auto simp: ring_pop_def)
    qed
    then obtain s1 p1 where
      l: "pop_loop p len 0 s = Inr (s1, p1, k)"
      and s': "s' = s1\<lparr>g_total_bytes_popped := g_total_bytes_popped s1 + of_nat k\<rparr>"
      by blast
    from pop_loop_frame [OF l] obtain t where
      "s1 = s\<lparr>s_ring := (s_ring s)\<lparr>tail := t\<rparr>\<rparr>"
      by blast
    then show ?thesis by (simp add: s')
  qed
  then show "g_total_bytes_popped s' = g_total_bytes_popped s + of_nat k"
    and "g_total_bytes_pushed s' = g_total_bytes_pushed s"
    and "capacity (s_ring s') = capacity (s_ring s)"
    and "head (s_ring s') = head (s_ring s)"
    and "s_crc_table_ready s' = s_crc_table_ready s"
    and "s_crc16_table s' = s_crc16_table s"
    and "s_ring_storage s' = s_ring_storage s"
    by simp_all
qed

lemma crc16_ccitt_frame:
  assumes "crc16_ccitt data len s = Inr (s', c)"
  shows "s_ring s' = s_ring s" and "s_ring_storage s' = s_ring_storage s"
    and "g_total_bytes_pushed s' = g_total_bytes_pushed s"
    and "g_total_bytes_popped s' = g_total_bytes_popped s"
proof -
  define s1 where "s1 = (if \<not> s_crc_table_ready s
                then (prv_crc16_build_table s)\<lparr>s_crc_table_ready := True\<rparr>
                else s)"
  have "s' = s1"
    using assms by (cases "crc_loop data len 0 (s_crc16_table s1) 0xFFFF")
      (simp_all add: crc16_ccitt_def s1_def [symmetric])
  then show "s_ring s' = s_ring s" and "s_ring_storage s' = s_ring_storage s"
    and "g_total_bytes_pushed s' = g_total_bytes_pushed s"
    and "g_total_bytes_popped s' = g_total_bytes_popped s"
    by (simp_all add: s1_def prv_crc16_build_table_def)
qed

lemma simple_calls_frame:
  "s_ring (log_set_level l s) = s_ring s"
  "s_ring_storage (log_set_level l s) = s_ring_storage s"
  "g_total_bytes_pushed (log_set_level l s) = g_total_bytes_pushed s"
  "g_total_bytes_popped (log_set_level l s) = g_total_bytes_popped s"
  "s_ring (srand32 seed s) = s_ring s"
  "s_ring_storage (srand32 seed s) = s_ring_storage s"
  "g_total_bytes_pushed (srand32 seed s) = g_total_bytes_pushed s"
  "g_total_bytes_popped (srand32 seed s) = g_total_bytes_popped s"
  "s_ring (fst (rand32 s)) = s_ring s"
  "s_ring_storage (fst (rand32 s)) = s_ring_storage s"
  "g_total_bytes_pushed (fst (rand32 s)) = g_total_bytes_pushed s"
  "g_total_bytes_popped (fst (rand32 s)) = g_total_bytes_popped s"
  by (simp_all add: log_set_level_def srand32_def rand32_def Let_def)

lemma module_reset_fields:
  "s_ring (module_reset s) = (s_ring s)\<lparr>head := 0, tail := 0\<rparr>"
  "s_ring_storage (module_reset s) = s_ring_storage s"
  "g_total_bytes_pushed (module_reset s) = 0"
  "g_total_bytes_popped (module_reset s) = 0"
  by (simp_all add: module_reset_def Let_def)

lemma module_reset_crc_fields:
  "s_crc16_table (module_reset s) = s_crc16_table s"
  "s_crc_table_ready (module_reset s) = s_crc_table_ready s"
  by (simp_all add: module_reset_def Let_def)

text \<open>
  What a completed \<open>module_self_test\<close> did: the reset, then its push, its pop and its
  checksum; nothing after the checksum touches the ring, the counters or the table.
\<close>

lemma module_self_test_Inr:
  assumes "module_self_test m v s = Inr (s', ok)"
  shows "\<exists>s1 p s2 buf r s3 c.
           ring_push (Some self_test_msg) 11 (module_reset s) = Inr (s1, p) \<and>
           ring_pop (Some (replicate 32 0)) 32 s1 = Inr (s2, buf, r) \<and>
           crc16_ccitt buf r s2 = Inr (s3, c) \<and>
           ok = (p = 11 \<and> r = 11 \<and> c \<noteq> 0) \<and>
           s_ring s' = s_ring s3 \<and> s_ring_storage s' = s_ring_storage s3 \<and>
           g_total_bytes_pushed s' = g_total_bytes_pushed s3 \<and>
           g_total_bytes_popped s' = g_total_bytes_popped s3 \<and>
           s_crc16_table s' = s_crc16_table s3 \<and>
           s_crc_table_ready s' = s_crc_table_ready s3"
proof (cases "ring_push (Some self_test_msg) 11 (module_reset s)")
  case (Inl e)
  then show ?thesis using assms by (simp add: module_self_test_def)
next
  case (Inr x)
  obtain s1 p where x: "x = (s1, p)" by (cases x)
  note a = Inr [unfolded x]
  show ?thesis
  proof (cases "ring_pop (Some (replicate 32 0)) 32 s1")
    case (Inl e)
    then show ?thesis using assms a by (simp add: module_self_test_def)
  next
    case (Inr y)
    obtain s2 buf r where y: "y = (s2, buf, r)" by (cases y)
    note b = Inr [unfolded y]
    show ?thesis
    proof (cases "crc16_ccitt buf r s2")
      case (Inl e)
      then show ?thesis using assms a b by (simp add: module_self_test_def)
    next
      case (Inr z)
      obtain s3 c where z: "z = (s3, c)" by (cases z)
      note c = Inr [unfolded z]
      define s6 where "s6 = fst (rand32 (fst (rand32 (srand32 0xDEADBEEF s3))))"
      have f: "s_ring s6 = s_ring s3" "s_ring_storage s6 = s_ring_storage s3"
        "g_total_bytes_pushed s6 = g_total_bytes_pushed s3"
        "g_total_bytes_popped s6 = g_total_bytes_popped s3"
        "s_crc16_table s6 = s_crc16_table s3"
        "s_crc_table_ready s6 = s_crc_table_ready s3"
        by (simp_all add: s6_def srand32_def rand32_def Let_def)
      from assms a b c have
        "ok = (p = 11 \<and> r = 11 \<and> c \<noteq> 0)"
        and "s' = prv_log (if ok then LOG_INFO else LOG_ERROR) ''self_test: %s''
                    [Arg_str (if ok then ''OK'' else ''FAIL'')]
                    (s6\<lparr>s_stats := \<lparr> stat_n = stat_n (s_stats s6) + 10,
                                          stat_mean = m, stat_m2 = v \<rparr>\<rparr>)"
        by (auto simp: module_self_test_def Let_def s6_def)
      with a b c f show ?thesis by simp
    qed
  qed
qed

section \<open>Sequences of pushes and pops\<close>

lemma call_ring_io:
  assumes ok: "ring_ok s" and io: "is_ring_io c" and r: "call c s = Inr (s', r)"
  shows "ring_ok s'"
    and "int (ring_count s') = int (ring_count s) + int (pushed_by c r) - int (popped_by c r)"
    and "capacity (s_ring s') = capacity (s_ring s)"
proof -
  have "ring_ok s' \<and>
        int (ring_count s') = int (ring_count s) + int (pushed_by c r) - int (popped_by c r) \<and>
        capacity (s_ring s') = capacity (s_ring s)"
  proof (cases c)
    case (Call_ring_push data len)
    with r obtain k where k: "ring_push data len s = Inr (s', k)" "r = Ret_size k"
      by (auto split: sum.splits)
    from ring_push_Inr [OF ok k(1)] show ?thesis
      by (simp add: Call_ring_push k(2))
  next
    case (Call_ring_pop out len)
    with r obtain out' k where k: "ring_pop out len s = Inr (s', out', k)" "r = Ret_size k"
      by (auto split: sum.splits)
    from ring_pop_Inr [OF ok k(1)] show ?thesis
      by (simp add: Call_ring_pop k(2))
  qed (use io in simp_all)
  then show "ring_ok s'"
    and "int (ring_count s') = int (ring_count s) + int (pushed_by c r) - int (popped_by c r)"
    and "capacity (s_ring s') = capacity (s_ring s)"
    by simp_all
qed

lemma run_Cons_Inr:
  assumes "run (c # cs) s = Inr (s', rs)"
  obtains s1 r rs1 where "call c s = Inr (s1, r)" and "run cs s1 = Inr (s', rs1)" and "rs = r # rs1"
  using assms by (auto split: sum.splits)

lemma run_ring_io:
  assumes "ring_ok s" and "\<forall>c\<in>set cs. is_ring_io c" and "run cs s = Inr (s', rs)"
  shows "ring_ok s' \<and> int (ring_count s') = int (ring_count s) + net_bytes cs rs \<and>
         capacity (s_ring s') = capacity (s_ring s)"
  using assms
proof (induction cs arbitrary: s rs)
  case Nil
  then show ?case by simp
next
  case (Cons c cs)
  from Cons.prems(3) obtain s1 r rs1 where
    c: "call c s = Inr (s1, r)" and cs: "run cs s1 = Inr (s', rs1)" and rs: "rs = r # rs1"
    by (rule run_Cons_Inr)
  from Cons.prems(2) have io: "is_ring_io c" and ios: "\<forall>c\<in>set cs. is_ring_io c"
    by simp_all
  note st = call_ring_io [OF Cons.prems(1) io c]
  from Cons.IH [OF st(1) ios cs] st(2,3) show ?case
    by (simp add: rs)
qed

lemma call_ring_io_total:
  assumes ok: "ring_ok s" and io: "is_ring_io c" and b: "buffers_ok c"
  shows "\<exists>s' r. call c s = Inr (s', r)"
proof (cases c)
  case (Call_ring_push data len)
  show ?thesis
  proof (cases data)
    case None
    then show ?thesis by (simp add: Call_ring_push ring_push_def)
  next
    case (Some p)
    with b Call_ring_push have "min len (ring_free s) \<le> length p" by (simp add: min_def)
    from ring_push_total [OF ok this] show ?thesis
      by (auto simp: Call_ring_push Some)
  qed
next
  case (Call_ring_pop out len)
  show ?thesis
  proof (cases out)
    case None
    then show ?thesis by (simp add: Call_ring_pop ring_pop_def)
  next
    case (Some p)
    with b Call_ring_pop have "min len (ring_count s) \<le> length p" by (simp add: min_def)
    from ring_pop_total [OF ok this] show ?thesis
      by (auto simp: Call_ring_pop Some)
  qed
qed (use io in simp_all)

lemma run_ring_io_total:
  assumes "ring_ok s" and "\<forall>c\<in>set cs. is_ring_io c" and "\<forall>c\<in>set cs. buffers_ok c"
  shows "\<exists>s' rs. run cs s = Inr (s', rs)"
  using assms
proof (induction cs arbitrary: s)
  case Nil
  then show ?case by simp
next
  case (Cons c cs)
  from Cons.prems have io: "is_ring_io c" and b: "buffers_ok c" by simp_all
  from call_ring_io_total [OF Cons.prems(1) io b] obtain s1 r where
    c: "call c s = Inr (s1, r)" by blast
  from call_ring_io(1) [OF Cons.prems(1) io c] Cons.prems(2,3) Cons.IH [of s1]
  obtain s' rs where "run cs s1 = Inr (s', rs)" by auto
  with c show ?case by simp
qed

lemmas eval_defs =
  module_init_def module_set_config_def module_reset_def init_state_def Let_def prv_log_def
  RING_STORAGE_SIZE_def ring_push_def ring_pop_def push_loop.simps pop_loop.simps
  prv_ring_full_def prv_ring_empty_def ring_next_def

lemma eval_trace:
  "map_sum id snd (run [Call_ring_push (Some [1, 2, 3]) 3, Call_ring_pop (Some [0, 0]) 2]
     (fst (module_init None init_state))) = Inr [Ret_size 3, Ret_size 2]"
  by (simp add: module_init_def init_state_def Let_def prv_log_def RING_STORAGE_SIZE_def
      ring_push_def ring_pop_def push_loop.simps pop_loop.simps prv_ring_full_def
      prv_ring_empty_def ring_next_def)

text \<open>
  Claim C1. Start from a configured ring that is empty and perform any sequence of
  \<open>ring_push\<close> and \<open>ring_pop\<close> calls. Whenever the sequence runs to its end, the number
  of bytes held (what the pushes accepted minus what the pops delivered) is zero exactly
  when \<open>head = tail\<close>, it is \<open>capacity - 1\<close> exactly when the full predicate
  \<open>(head + 1) % capacity == tail\<close> holds, and \<open>head\<close> and \<open>tail\<close> are below the
  capacity, which is unchanged and between 1 and 1024. The sequence does run to its end
  when every buffer passed in has at least \<open>len\<close> bytes.
\<close>

theorem ring_full_empty_invariant:
  assumes ok: "ring_ok s0" and empty: "prv_ring_empty s0"
    and io: "\<forall>c\<in>set cs. is_ring_io c"
  shows "(\<forall>s rs. run cs s0 = Inr (s, rs) \<longrightarrow>
            (prv_ring_empty s \<longleftrightarrow> net_bytes cs rs = 0) \<and>
            prv_ring_full s = Inr (net_bytes cs rs = int (unat (capacity (s_ring s))) - 1) \<and>
            unat (head (s_ring s)) < unat (capacity (s_ring s)) \<and>
            unat (tail (s_ring s)) < unat (capacity (s_ring s)) \<and>
            capacity (s_ring s) = capacity (s_ring s0) \<and>
            1 \<le> unat (capacity (s_ring s)) \<and> unat (capacity (s_ring s)) \<le> 1024) \<and>
         ((\<forall>c\<in>set cs. buffers_ok c) \<longrightarrow> (\<exists>s rs. run cs s0 = Inr (s, rs)))"
proof (intro conjI allI impI)
  fix s rs
  assume r: "run cs s0 = Inr (s, rs)"
  have c0: "ring_count s0 = 0" using ok empty by (simp add: ring_ok_empty_iff)
  from run_ring_io [OF ok io r] c0 have
    ok': "ring_ok s" and n: "int (ring_count s) = net_bytes cs rs"
    and cap: "capacity (s_ring s) = capacity (s_ring s0)"
    by simp_all
  from ok' have pos: "1 \<le> unat (capacity (s_ring s))" by (simp add: ring_ok_def)
  show "prv_ring_empty s \<longleftrightarrow> net_bytes cs rs = 0"
    using n by (simp add: ring_ok_empty_iff [OF ok'] flip: n)
  have "(ring_count s = unat (capacity (s_ring s)) - 1) \<longleftrightarrow>
        (int (ring_count s) = int (unat (capacity (s_ring s))) - 1)"
    using pos by arith
  then show "prv_ring_full s = Inr (net_bytes cs rs = int (unat (capacity (s_ring s))) - 1)"
    by (simp only: ring_ok_full [OF ok'] n)
  show "unat (head (s_ring s)) < unat (capacity (s_ring s))"
    "unat (tail (s_ring s)) < unat (capacity (s_ring s))"
    "1 \<le> unat (capacity (s_ring s))" "unat (capacity (s_ring s)) \<le> 1024"
    using ok' by (simp_all add: ring_ok_def RING_STORAGE_SIZE_def)
  show "capacity (s_ring s) = capacity (s_ring s0)" by (rule cap)
next
  assume "\<forall>c\<in>set cs. buffers_ok c"
  with run_ring_io_total [OF ok io] show "\<exists>s rs. run cs s0 = Inr (s, rs)" by blast
qed

theorem ring_full_empty_invariant_witness:
  "ring_ok (fst (module_init None init_state)) \<and>
   prv_ring_empty (fst (module_init None init_state)) \<and>
   list_all is_ring_io [Call_ring_push (Some [1, 2, 3]) 3, Call_ring_pop (Some [0, 0]) 2] \<and>
   list_all buffers_ok [Call_ring_push (Some [1, 2, 3]) 3, Call_ring_pop (Some [0, 0]) 2] \<and>
   (\<exists>s. run [Call_ring_push (Some [1, 2, 3]) 3, Call_ring_pop (Some [0, 0]) 2]
           (fst (module_init None init_state)) = Inr (s, [Ret_size 3, Ret_size 2]) \<and>
        net_bytes [Call_ring_push (Some [1, 2, 3]) 3, Call_ring_pop (Some [0, 0]) 2]
          [Ret_size 3, Ret_size 2] = 1 \<and>
        \<not> prv_ring_empty s \<and>
        prv_ring_full s = Inr False \<and>
        unat (head (s_ring s)) < 256 \<and> unat (tail (s_ring s)) < 256)"
proof -
  let ?s0 = "fst (module_init None init_state)"
  let ?cs = "[Call_ring_push (Some [1, 2, 3]) 3, Call_ring_pop (Some [0, 0]) 2]"
  have io: "\<forall>c\<in>set ?cs. is_ring_io c" by simp
  have b: "\<forall>c\<in>set ?cs. buffers_ok c" by simp
  note t = ring_full_empty_invariant [OF init_configured(1,2) io]
  from t b obtain s rs where r: "run ?cs ?s0 = Inr (s, rs)" by blast
  with eval_trace have rs: "rs = [Ret_size 3, Ret_size 2]" by simp
  from t r have
    "(prv_ring_empty s \<longleftrightarrow> net_bytes ?cs rs = 0) \<and>
     prv_ring_full s = Inr (net_bytes ?cs rs = int (unat (capacity (s_ring s))) - 1) \<and>
     unat (head (s_ring s)) < unat (capacity (s_ring s)) \<and>
     unat (tail (s_ring s)) < unat (capacity (s_ring s)) \<and>
     capacity (s_ring s) = capacity (s_ring ?s0)"
    by blast
  with r show ?thesis
    by (auto simp: rs init_configured)
qed

section \<open>Degenerate capacity\<close>

lemma degenerate_push:
  assumes "s_ring s = \<lparr>head = 0, tail = 0, capacity = 1\<rparr>"
  shows "\<exists>s'. ring_push data len s = Inr (s', 0) \<and> s_ring s' = s_ring s"
proof -
  have f: "prv_ring_full s = Inr True"
    using assms by (simp add: prv_ring_full_def ring_next_def)
  have l: "push_loop p len 0 s = Inr (s, 0)" for p
    using f by (subst push_loop.simps) simp
  show ?thesis
    by (cases data) (simp_all add: ring_push_def l Let_def)
qed

lemma degenerate_pop:
  assumes "s_ring s = \<lparr>head = 0, tail = 0, capacity = 1\<rparr>"
  shows "\<exists>s'. ring_pop out len s = Inr (s', out, 0) \<and> s_ring s' = s_ring s"
proof -
  have e: "prv_ring_empty s"
    using assms by (simp add: prv_ring_empty_def)
  have l: "pop_loop p len 0 s = Inr (s, p, 0)" for p
    using e by (subst pop_loop.simps) simp
  show ?thesis
    by (cases out) (simp_all add: ring_pop_def l)
qed

lemma degenerate_call:
  assumes d: "s_ring s = \<lparr>head = 0, tail = 0, capacity = 1\<rparr>"
    and nc: "\<not> is_config_call c" and r: "call c s = Inr (s', r)"
  shows "s_ring s' = \<lparr>head = 0, tail = 0, capacity = 1\<rparr>"
proof (cases c)
  case (Call_ring_push data len)
  with degenerate_push [OF d, of data len] r d show ?thesis by auto
next
  case (Call_ring_pop out len)
  with degenerate_pop [OF d, of out len] r d show ?thesis by auto
next
  case (Call_crc16_ccitt data len)
  with r obtain x where "crc16_ccitt data len s = Inr (s', x)" by (auto split: sum.splits)
  from crc16_ccitt_frame(1) [OF this] d show ?thesis by simp
next
  case Call_module_reset
  with r d show ?thesis by (auto simp: module_reset_fields)
next
  case (Call_log_set_level l)
  with r d show ?thesis by (auto simp: simple_calls_frame)
next
  case (Call_srand32 seed)
  with r d show ?thesis by (auto simp: simple_calls_frame)
next
  case Call_rand32
  with r d simple_calls_frame(9) [of s] show ?thesis by (auto split: prod.splits)
next
  case (Call_module_self_test m v)
  with r obtain ok where "module_self_test m v s = Inr (s', ok)" by (auto split: sum.splits)
  from module_self_test_Inr [OF this] obtain s1 p s2 buf k s3 x where
    u: "ring_push (Some self_test_msg) 11 (module_reset s) = Inr (s1, p)"
       "ring_pop (Some (replicate 32 0)) 32 s1 = Inr (s2, buf, k)"
       "crc16_ccitt buf k s2 = Inr (s3, x)"
       "s_ring s' = s_ring s3"
    by blast
  have d0: "s_ring (module_reset s) = \<lparr>head = 0, tail = 0, capacity = 1\<rparr>"
    using d by (simp add: module_reset_fields)
  from degenerate_push [OF d0, of "Some self_test_msg" 11] u(1)
  have d1: "s_ring s1 = \<lparr>head = 0, tail = 0, capacity = 1\<rparr>" by (auto simp: d0)
  from degenerate_pop [OF d1, of "Some (replicate 32 0)" 32] u(2)
  have d2: "s_ring s2 = \<lparr>head = 0, tail = 0, capacity = 1\<rparr>" by (auto simp: d1)
  from crc16_ccitt_frame(1) [OF u(3)] d2 u(4) show ?thesis by simp
qed (use nc in simp_all)

lemma degenerate_run:
  assumes "s_ring s = \<lparr>head = 0, tail = 0, capacity = 1\<rparr>"
    and "\<forall>c\<in>set cs. \<not> is_config_call c" and "run cs s = Inr (s', rs)"
  shows "s_ring s' = \<lparr>head = 0, tail = 0, capacity = 1\<rparr>"
  using assms
proof (induction cs arbitrary: s rs)
  case Nil
  then show ?case by simp
next
  case (Cons c cs)
  from Cons.prems(3) obtain s1 r rs1 where
    c: "call c s = Inr (s1, r)" and cs: "run cs s1 = Inr (s', rs1)"
    by (rule run_Cons_Inr)
  from Cons.prems(2) have nc: "\<not> is_config_call c" and ncs: "\<forall>c\<in>set cs. \<not> is_config_call c"
    by simp_all
  from Cons.IH [OF degenerate_call [OF Cons.prems(1) nc c] ncs cs] show ?case .
qed

text \<open>
  Claim C8. A configuration call with capacity 1 succeeds, and after it, whatever calls
  other than configuration calls are made in between, every \<open>ring_push\<close> returns 0,
  for every buffer and every length.
\<close>

theorem capacity_one_never_accepts:
  assumes cap: "ring_capacity cfg = 1"
    and conf: "conf = module_set_config (Some cfg) \<or> conf = module_init (Some cfg)"
    and nc: "\<forall>c\<in>set cs. \<not> is_config_call c"
    and r: "run cs (fst (conf s)) = Inr (s2, rs)"
  shows "snd (conf s) \<and> (\<exists>s3. ring_push data len s2 = Inr (s3, 0))"
proof -
  from conf have conf': "conf = module_set_config (Some cfg) \<or> conf = module_init (Some cfg) \<or>
                 (conf = module_init None \<and> cfg = g_config s)" by blast
  from configure_result(1) [OF conf'] cap have ok: "snd (conf s)" by simp
  from configure_result(3) [OF conf' ok] cap
  have "s_ring (fst (conf s)) = \<lparr>head = 0, tail = 0, capacity = 1\<rparr>" by simp
  from degenerate_run [OF this nc r] have "s_ring s2 = \<lparr>head = 0, tail = 0, capacity = 1\<rparr>" .
  from degenerate_push [OF this, of data len] ok show ?thesis by blast
qed

theorem capacity_one_never_accepts_witness:
  "ring_capacity ((g_config init_state)\<lparr>ring_capacity := 1\<rparr>) = 1 \<and>
   list_all (\<lambda>c. \<not> is_config_call c) [Call_ring_push (Some [9]) 1, Call_ring_pop (Some [0]) 1] \<and>
   (\<exists>s2. run [Call_ring_push (Some [9]) 1, Call_ring_pop (Some [0]) 1]
        (fst (module_set_config (Some ((g_config init_state)\<lparr>ring_capacity := 1\<rparr>)) init_state))
        = Inr (s2, [Ret_size 0, Ret_size 0]) \<and>
      snd (module_set_config (Some ((g_config init_state)\<lparr>ring_capacity := 1\<rparr>)) init_state) \<and>
      (\<exists>s3. ring_push (Some [1, 2, 3]) 3 s2 = Inr (s3, 0)))"
proof -
  let ?cfg = "(g_config init_state)\<lparr>ring_capacity := 1\<rparr>"
  let ?cs = "[Call_ring_push (Some [9]) 1, Call_ring_pop (Some [0]) 1]"
  have cap: "ring_capacity ?cfg = 1" by simp
  have nc: "\<forall>c\<in>set ?cs. \<not> is_config_call c" by simp
  have "\<exists>s2. run ?cs (fst (module_set_config (Some ?cfg) init_state)) = Inr (s2, [Ret_size 0, Ret_size 0])"
    by (simp add: module_set_config_def init_state_def Let_def prv_log_def RING_STORAGE_SIZE_def
      ring_push_def ring_pop_def push_loop.simps pop_loop.simps prv_ring_full_def
      prv_ring_empty_def ring_next_def)
  then obtain s2 where
    r: "run ?cs (fst (module_set_config (Some ?cfg) init_state)) = Inr (s2, [Ret_size 0, Ret_size 0])"
    by blast
  from capacity_one_never_accepts
         [where conf = "module_set_config (Some ?cfg)" and s = init_state
            and data = "Some [1, 2, 3]" and len = 3, OF cap _ nc r] r
  show ?thesis
    by auto
qed

section \<open>Reset and the cumulative counters\<close>

lemma call_counters:
  assumes "call c s = Inr (s', r)" and "c \<noteq> Call_module_reset" and "\<not> is_self_test c"
  shows "g_total_bytes_pushed s' = g_total_bytes_pushed s + of_nat (pushed_by c r) \<and>
         g_total_bytes_popped s' = g_total_bytes_popped s + of_nat (popped_by c r)"
proof (cases c)
  case (Call_module_init cfg)
  then show ?thesis using assms(1)
    by (auto simp: module_init_def Let_def split: if_splits)
next
  case (Call_module_set_config cfg)
  then show ?thesis using assms(1)
    by (auto simp: module_set_config_def Let_def split: if_splits option.splits)
next
  case Call_module_reset
  then show ?thesis using assms(2) by simp
next
  case (Call_log_set_level l)
  then show ?thesis using assms(1) by (auto simp: simple_calls_frame)
next
  case (Call_ring_push data len)
  with assms(1) obtain k where k: "ring_push data len s = Inr (s', k)" "r = Ret_size k"
    by (auto split: sum.splits)
  from ring_push_frame(1,2) [OF k(1)] show ?thesis
    by (simp add: Call_ring_push k(2))
next
  case (Call_ring_pop out len)
  with assms(1) obtain out' k where k: "ring_pop out len s = Inr (s', out', k)" "r = Ret_size k"
    by (auto split: sum.splits)
  from ring_pop_frame(1,2) [OF k(1)] show ?thesis
    by (simp add: Call_ring_pop k(2))
next
  case (Call_crc16_ccitt data len)
  with assms(1) obtain x where "crc16_ccitt data len s = Inr (s', x)" "r = Ret_u16 x"
    by (auto split: sum.splits)
  from crc16_ccitt_frame(3,4) [OF this(1)] show ?thesis
    by (simp add: Call_crc16_ccitt \<open>r = Ret_u16 x\<close>)
next
  case (Call_srand32 seed)
  then show ?thesis using assms(1) by (auto simp: simple_calls_frame)
next
  case Call_rand32
  then show ?thesis using assms(1) simple_calls_frame(11,12) [of s]
    by (auto split: prod.splits)
next
  case (Call_module_self_test m v)
  then show ?thesis using assms(3) by simp
qed

lemma self_test_counters:
  assumes "call (Call_module_self_test m v) s = Inr (s', r)"
  shows "\<exists>s1 p s2 buf k.
           ring_push (Some self_test_msg) 11 (module_reset s) = Inr (s1, p) \<and>
           ring_pop (Some (replicate 32 0)) 32 s1 = Inr (s2, buf, k) \<and>
           g_total_bytes_pushed s' = of_nat p \<and> g_total_bytes_popped s' = of_nat k"
proof -
  from assms obtain ok where "module_self_test m v s = Inr (s', ok)" by (auto split: sum.splits)
  from module_self_test_Inr [OF this] obtain s1 p s2 buf k s3 x where
    u: "ring_push (Some self_test_msg) 11 (module_reset s) = Inr (s1, p)"
       "ring_pop (Some (replicate 32 0)) 32 s1 = Inr (s2, buf, k)"
       "crc16_ccitt buf k s2 = Inr (s3, x)"
       "g_total_bytes_pushed s' = g_total_bytes_pushed s3"
       "g_total_bytes_popped s' = g_total_bytes_popped s3"
    by blast
  have "g_total_bytes_pushed s' = of_nat p"
    by (simp add: u(4) crc16_ccitt_frame(3) [OF u(3)] ring_pop_frame(2) [OF u(2)]
        ring_push_frame(1) [OF u(1)] module_reset_fields)
  moreover have "g_total_bytes_popped s' = of_nat k"
    by (simp add: u(5) crc16_ccitt_frame(4) [OF u(3)] ring_pop_frame(1) [OF u(2)]
        ring_push_frame(2) [OF u(1)] module_reset_fields)
  ultimately show ?thesis using u(1,2) by blast
qed

text \<open>
  Claim C9 as stated fails: \<open>module_self_test\<close> is a public function other than
  \<open>module_reset\<close> that zeroes both counters, because it starts by calling
  \<open>module_reset\<close>. After \<open>module_init\<close>, a push of two bytes and a reconfiguration to
  capacity 1 the counters are 2 and 0; \<open>module_self_test\<close> then leaves both at 0 (its
  own push and pop transfer nothing) and reports no byte count.
\<close>

theorem self_test_zeroes_counters_counterexample:
  "map_sum id (counters \<circ> fst)
     (run [Call_module_init None, Call_ring_push (Some [1, 2]) 2,
           Call_module_set_config (Some ((g_config init_state)\<lparr>ring_capacity := 1\<rparr>))]
        init_state) = Inr (2, 0) \<and>
   map_sum id (counters \<circ> fst)
     (run [Call_module_init None, Call_ring_push (Some [1, 2]) 2,
           Call_module_set_config (Some ((g_config init_state)\<lparr>ring_capacity := 1\<rparr>)),
           Call_module_self_test (9 / 2) (165 / 2)]
        init_state) = Inr (0, 0) \<and>
   map_sum id snd
     (run [Call_module_init None, Call_ring_push (Some [1, 2]) 2,
           Call_module_set_config (Some ((g_config init_state)\<lparr>ring_capacity := 1\<rparr>)),
           Call_module_self_test (9 / 2) (165 / 2)]
        init_state) = Inr [Ret_bool True, Ret_size 2, Ret_bool True, Ret_bool False]"
  by (simp add: eval_defs counters_def module_self_test_def crc16_ccitt_def crc_loop.simps
      prv_crc16_build_table_def srand32_def rand32_def)

text \<open>
  Claim C9, amended. \<open>module_reset\<close> always returns, with \<open>head\<close>, \<open>tail\<close> and both
  cumulative counters 0. \<open>module_reset\<close> and \<open>module_self_test\<close>, which calls it first,
  are the only calls that zero the counters: after \<open>module_self_test\<close> the counters hold
  just what its own push and pop transferred, counted from 0. Every other call leaves
  each counter as it was, or adds to it the number of bytes the call reported (a push to
  \<open>g_total_bytes_pushed\<close>, a pop to \<open>g_total_bytes_popped\<close>). In particular, both
  configuration calls, successful or not, leave the two counters unchanged.
\<close>

theorem only_reset_and_self_test_zero_counters:
  "call Call_module_reset s = Inr (module_reset s, Ret_void) \<and>
   head (s_ring (module_reset s)) = 0 \<and> tail (s_ring (module_reset s)) = 0 \<and>
   g_total_bytes_pushed (module_reset s) = 0 \<and> g_total_bytes_popped (module_reset s) = 0 \<and>
   (c \<noteq> Call_module_reset \<longrightarrow> \<not> is_self_test c \<longrightarrow> call c s = Inr (s', r) \<longrightarrow>
      g_total_bytes_pushed s' = g_total_bytes_pushed s + of_nat (pushed_by c r) \<and>
      g_total_bytes_popped s' = g_total_bytes_popped s + of_nat (popped_by c r)) \<and>
   (call (Call_module_self_test m v) s = Inr (t', q) \<longrightarrow>
      (\<exists>s1 p s2 buf k.
         ring_push (Some self_test_msg) 11 (module_reset s) = Inr (s1, p) \<and>
         ring_pop (Some (replicate 32 0)) 32 s1 = Inr (s2, buf, k) \<and>
         g_total_bytes_pushed t' = of_nat p \<and> g_total_bytes_popped t' = of_nat k)) \<and>
   g_total_bytes_pushed (fst (module_set_config cfg s)) = g_total_bytes_pushed s \<and>
   g_total_bytes_popped (fst (module_set_config cfg s)) = g_total_bytes_popped s \<and>
   g_total_bytes_pushed (fst (module_init cfg s)) = g_total_bytes_pushed s \<and>
   g_total_bytes_popped (fst (module_init cfg s)) = g_total_bytes_popped s"
proof -
  have "g_total_bytes_pushed (fst (module_set_config cfg s)) = g_total_bytes_pushed s \<and>
        g_total_bytes_popped (fst (module_set_config cfg s)) = g_total_bytes_popped s"
    by (simp add: module_set_config_def Let_def split: option.splits)
  moreover have "g_total_bytes_pushed (fst (module_init cfg s)) = g_total_bytes_pushed s \<and>
        g_total_bytes_popped (fst (module_init cfg s)) = g_total_bytes_popped s"
    by (simp add: module_init_def Let_def)
  moreover have "call (Call_module_self_test m v) s = Inr (t', q) \<longrightarrow>
      (\<exists>s1 p s2 buf k.
         ring_push (Some self_test_msg) 11 (module_reset s) = Inr (s1, p) \<and>
         ring_pop (Some (replicate 32 0)) 32 s1 = Inr (s2, buf, k) \<and>
         g_total_bytes_pushed t' = of_nat p \<and> g_total_bytes_popped t' = of_nat k)"
    using self_test_counters [of m v s t' q] by blast
  ultimately show ?thesis
    using call_counters [of c s s' r] by (simp add: module_reset_fields)
qed

theorem only_reset_and_self_test_zero_counters_witness:
  "Call_ring_push (Some [1, 2]) 2 \<noteq> Call_module_reset \<and>
   \<not> is_self_test (Call_ring_push (Some [1, 2]) 2) \<and>
   (\<exists>s'. call (Call_ring_push (Some [1, 2]) 2) (fst (module_init None init_state))
            = Inr (s', Ret_size 2) \<and>
          g_total_bytes_pushed s' = 2 \<and> g_total_bytes_popped s' = 0 \<and>
          g_total_bytes_pushed (module_reset s') = 0 \<and>
          g_total_bytes_pushed (fst (module_set_config (Some (g_config init_state)) s')) = 2) \<and>
   (\<exists>t'. call (Call_module_self_test (9 / 2) (165 / 2))
            (fst (module_set_config (Some ((g_config init_state)\<lparr>ring_capacity := 1\<rparr>)) init_state))
            = Inr (t', Ret_bool False) \<and>
          (\<exists>s1 p s2 buf k.
             ring_push (Some self_test_msg) 11
               (module_reset (fst (module_set_config
                  (Some ((g_config init_state)\<lparr>ring_capacity := 1\<rparr>)) init_state)))
               = Inr (s1, p) \<and>
             ring_pop (Some (replicate 32 0)) 32 s1 = Inr (s2, buf, k) \<and>
             g_total_bytes_pushed t' = of_nat p \<and> g_total_bytes_popped t' = of_nat k))"
proof -
  let ?s = "fst (module_init None init_state)"
  let ?d = "fst (module_set_config (Some ((g_config init_state)\<lparr>ring_capacity := 1\<rparr>)) init_state)"
  have "\<exists>s'. call (Call_ring_push (Some [1, 2]) 2) ?s = Inr (s', Ret_size 2)"
    by (simp add: module_init_def init_state_def Let_def prv_log_def RING_STORAGE_SIZE_def
      ring_push_def push_loop.simps prv_ring_full_def ring_next_def)
  then obtain s' where r: "call (Call_ring_push (Some [1, 2]) 2) ?s = Inr (s', Ret_size 2)"
    by blast
  have z: "g_total_bytes_pushed ?s = 0" "g_total_bytes_popped ?s = 0"
    by (simp_all add: module_init_def init_state_def Let_def)
  from only_reset_and_self_test_zero_counters
         [where s = ?s and c = "Call_ring_push (Some [1, 2]) 2" and s' = s' and r = "Ret_size 2"]
       r z
  have a: "g_total_bytes_pushed s' = 2 \<and> g_total_bytes_popped s' = 0" by simp
  from only_reset_and_self_test_zero_counters
         [where s = s' and cfg = "Some (g_config init_state)"]
  have b: "g_total_bytes_pushed (module_reset s') = 0"
    "g_total_bytes_pushed (fst (module_set_config (Some (g_config init_state)) s')) = g_total_bytes_pushed s'"
    by simp_all
  have "\<exists>t'. call (Call_module_self_test (9 / 2) (165 / 2)) ?d = Inr (t', Ret_bool False)"
    by (simp add: eval_defs module_self_test_def crc16_ccitt_def crc_loop.simps
      prv_crc16_build_table_def srand32_def rand32_def self_test_msg_def)
  then obtain t' where t: "call (Call_module_self_test (9 / 2) (165 / 2)) ?d = Inr (t', Ret_bool False)"
    by blast
  from only_reset_and_self_test_zero_counters
         [where s = ?d and m = "9 / 2" and v = "165 / 2" and t' = t' and q = "Ret_bool False"] t
  have c: "\<exists>s1 p s2 buf k.
             ring_push (Some self_test_msg) 11 (module_reset ?d) = Inr (s1, p) \<and>
             ring_pop (Some (replicate 32 0)) 32 s1 = Inr (s2, buf, k) \<and>
             g_total_bytes_pushed t' = of_nat p \<and> g_total_bytes_popped t' = of_nat k"
    by blast
  from a b r t c show ?thesis by auto
qed

section \<open>Conservation\<close>

lemma conservation_inv_cong:
  assumes "conservation_inv s"
    and "s_ring s' = s_ring s" and "s_ring_storage s' = s_ring_storage s"
    and "g_total_bytes_pushed s' = g_total_bytes_pushed s"
    and "g_total_bytes_popped s' = g_total_bytes_popped s"
  shows "conservation_inv s'"
  using assms by (simp add: conservation_inv_def ring_abs_cong [OF assms(2,3)])

lemma empty_count_zero: "prv_ring_empty s \<Longrightarrow> ring_count s = 0"
  by (simp add: prv_ring_empty_def ring_count_def)

lemma push_unconfigured_Inr:
  assumes "capacity (s_ring s) = 0" and "ring_push data len s = Inr (s', k)"
  shows "s' = s"
proof (cases "data = None \<or> len = 0")
  case True
  then show ?thesis using assms(2) by (auto simp: ring_push_def split: option.splits)
next
  case False
  then obtain p where "data = Some p" "0 < len" by auto
  with push_unconfigured [OF assms(1), of len p] assms(2) show ?thesis by simp
qed

lemma pop_empty_Inr:
  assumes "prv_ring_empty s" and "ring_pop out len s = Inr (s', out', k)"
  shows "s' = s" and "k = 0"
proof -
  have l: "pop_loop p len 0 s = Inr (s, p, 0)" for p
    using assms(1) by (subst pop_loop.simps) simp
  have "s' = s \<and> k = 0"
    using assms(2) by (cases out) (auto simp: ring_pop_def l split: if_splits)
  then show "s' = s" and "k = 0" by simp_all
qed

lemma configure_conservation:
  assumes inv: "conservation_inv s"
    and conf: "conf = module_set_config (Some cfg) \<or> conf = module_init (Some cfg) \<or>
               (conf = module_init None \<and> cfg = g_config s)"
    and e: "snd (conf s) \<longrightarrow> prv_ring_empty s"
  shows "conservation_inv (fst (conf s))"
proof (cases "snd (conf s)")
  case False
  with configure_result(2) [OF conf] inv show ?thesis by simp
next
  case True
  note c = configure_result [OF conf]
  from c(1) True have b: "1 \<le> unat (ring_capacity cfg)" "unat (ring_capacity cfg) \<le> 1024"
    by simp_all
  from inv have "length (s_ring_storage (fst (conf s))) = 1024"
    by (simp add: c(4) conservation_inv_def)
  note k = configured_ring_ok [OF c(3) [OF True] b this] this
  from e True have "ring_count s = 0" by (simp add: empty_count_zero)
  with inv have "g_total_bytes_pushed s - g_total_bytes_popped s = 0"
    by (simp add: conservation_inv_def)
  with k show ?thesis
    by (simp add: conservation_inv_def c(5,6))
qed

lemma reset_conservation:
  assumes "conservation_inv s"
  shows "conservation_inv (module_reset s)"
  using assms
  by (auto simp: conservation_inv_def module_reset_fields ring_ok_def ring_count_def)

lemma push_conservation:
  assumes inv: "conservation_inv s" and k: "ring_push data len s = Inr (s', k)"
  shows "conservation_inv s'"
proof (cases "ring_ok s")
  case True
  note p = ring_push_Inr [OF True k]
  from p(1) have "length (s_ring_storage s') = 1024"
    by (simp add: ring_ok_def RING_STORAGE_SIZE_def)
  moreover from inv have "g_total_bytes_pushed s - g_total_bytes_popped s = of_nat (ring_count s)"
    by (simp add: conservation_inv_def)
  then have "g_total_bytes_pushed s' - g_total_bytes_popped s' = of_nat (ring_count s')"
    by (simp add: p(2,3,4))
  ultimately show ?thesis using p(1) by (simp add: conservation_inv_def)
next
  case False
  with inv have "capacity (s_ring s) = 0" by (auto simp: conservation_inv_def)
  from push_unconfigured_Inr [OF this k] inv show ?thesis by simp
qed

lemma pop_conservation:
  assumes inv: "conservation_inv s" and k: "ring_pop out len s = Inr (s', out', k)"
  shows "conservation_inv s'"
proof (cases "ring_ok s")
  case True
  note p = ring_pop_Inr [OF True k]
  from p(1) have "length (s_ring_storage s') = 1024"
    by (simp add: ring_ok_def RING_STORAGE_SIZE_def)
  moreover from inv have "g_total_bytes_pushed s - g_total_bytes_popped s = of_nat (ring_count s)"
    by (simp add: conservation_inv_def)
  then have "g_total_bytes_pushed s' - g_total_bytes_popped s' = of_nat (ring_count s')"
    using p(3) by (simp add: p(2,4,5) of_nat_diff)
  ultimately show ?thesis using p(1) by (simp add: conservation_inv_def)
next
  case False
  with inv have "prv_ring_empty s" by (auto simp: conservation_inv_def prv_ring_empty_def)
  from pop_empty_Inr(1) [OF this k] inv show ?thesis by simp
qed

lemma call_conservation:
  assumes inv: "conservation_inv s" and r: "call c s = Inr (s', r)"
    and e: "reconfigures c s \<longrightarrow> prv_ring_empty s"
  shows "conservation_inv s'"
proof (cases c)
  case (Call_module_init cfg)
  with r have s': "s' = fst (module_init cfg s)" by (auto split: prod.splits)
  from e Call_module_init have e': "snd (module_init cfg s) \<longrightarrow> prv_ring_empty s"
    by (simp add: reconfigures_def)
  show ?thesis
  proof (cases cfg)
    case None
    from configure_conservation
           [where conf = "module_init None" and cfg = "g_config s", OF inv _ e' [unfolded None]]
    show ?thesis
      by (simp add: s' None)
  next
    case (Some x)
    from configure_conservation
           [where conf = "module_init (Some x)" and cfg = x, OF inv _ e' [unfolded Some]]
    show ?thesis
      by (simp add: s' Some)
  qed
next
  case (Call_module_set_config cfg)
  with r have s': "s' = fst (module_set_config cfg s)" by (auto split: prod.splits)
  from e Call_module_set_config have e': "snd (module_set_config cfg s) \<longrightarrow> prv_ring_empty s"
    by (simp add: reconfigures_def)
  show ?thesis
  proof (cases cfg)
    case None
    then show ?thesis using inv by (simp add: s' set_config_None)
  next
    case (Some x)
    from configure_conservation
           [where conf = "module_set_config (Some x)" and cfg = x, OF inv _ e' [unfolded Some]]
    show ?thesis
      by (simp add: s' Some)
  qed
next
  case Call_module_reset
  with r reset_conservation [OF inv] show ?thesis by auto
next
  case (Call_log_set_level l)
  with r have "s' = log_set_level l s" by auto
  then show ?thesis by (intro conservation_inv_cong [OF inv]) (simp_all add: simple_calls_frame)
next
  case (Call_ring_push data len)
  with r obtain k where k: "ring_push data len s = Inr (s', k)"
    by (auto split: sum.splits)
  from push_conservation [OF inv k] show ?thesis .
next
  case (Call_ring_pop out len)
  with r obtain out' k where k: "ring_pop out len s = Inr (s', out', k)"
    by (auto split: sum.splits)
  from pop_conservation [OF inv k] show ?thesis .
next
  case (Call_crc16_ccitt data len)
  with r obtain x where "crc16_ccitt data len s = Inr (s', x)" by (auto split: sum.splits)
  from crc16_ccitt_frame [OF this] show ?thesis by (intro conservation_inv_cong [OF inv])
next
  case (Call_srand32 seed)
  with r have "s' = srand32 seed s" by auto
  then show ?thesis by (intro conservation_inv_cong [OF inv]) (simp_all add: simple_calls_frame)
next
  case Call_rand32
  with r have "s' = fst (rand32 s)" by (auto split: prod.splits)
  then show ?thesis by (intro conservation_inv_cong [OF inv]) (simp_all add: simple_calls_frame)
next
  case (Call_module_self_test m v)
  with r obtain ok where "module_self_test m v s = Inr (s', ok)" by (auto split: sum.splits)
  from module_self_test_Inr [OF this] obtain s1 p s2 buf k s3 x where
    u: "ring_push (Some self_test_msg) 11 (module_reset s) = Inr (s1, p)"
       "ring_pop (Some (replicate 32 0)) 32 s1 = Inr (s2, buf, k)"
       "crc16_ccitt buf k s2 = Inr (s3, x)"
    and f: "s_ring s' = s_ring s3" "s_ring_storage s' = s_ring_storage s3"
       "g_total_bytes_pushed s' = g_total_bytes_pushed s3"
       "g_total_bytes_popped s' = g_total_bytes_popped s3"
    by blast
  note i2 = pop_conservation [OF push_conservation [OF reset_conservation [OF inv] u(1)] u(2)]
  note i3 = conservation_inv_cong [OF i2 crc16_ccitt_frame [OF u(3)]]
  from conservation_inv_cong [OF i3 f] show ?thesis .
qed

lemma run_conservation:
  assumes "conservation_inv s" and "run cs s = Inr (s', rs)" and "config_on_empty cs s"
  shows "conservation_inv s'"
  using assms
proof (induction cs arbitrary: s rs)
  case Nil
  then show ?case by simp
next
  case (Cons c cs)
  from Cons.prems(2) obtain s1 r rs1 where
    c: "call c s = Inr (s1, r)" and cs: "run cs s1 = Inr (s', rs1)"
    by (rule run_Cons_Inr)
  from Cons.prems(3) c have e: "reconfigures c s \<longrightarrow> prv_ring_empty s"
    and es: "config_on_empty cs s1"
    by (simp_all split: if_splits)
  from Cons.IH [OF call_conservation [OF Cons.prems(1) c e] cs es] show ?case .
qed

lemma init_conservation: "conservation_inv init_state"
  by (simp add: conservation_inv_def init_state_def ring_count_def)

lemma drain_returns_count:
  assumes "conservation_inv s" and "ring_count s \<le> len" and "len \<le> length out"
  shows "\<exists>s' out'. ring_pop (Some out) len s = Inr (s', out', ring_count s)"
proof (cases "ring_ok s")
  case True
  from assms(2,3) have m: "min len (ring_count s) = ring_count s" by simp
  from assms(2,3) have "min len (ring_count s) \<le> length out" by simp
  from ring_pop_total [OF True this] show ?thesis unfolding m by blast
next
  case False
  with assms(1) have e: "prv_ring_empty s" by (auto simp: conservation_inv_def prv_ring_empty_def)
  have l: "pop_loop p len 0 s = Inr (s, p, 0)" for p
    using e by (subst pop_loop.simps) simp
  show ?thesis by (simp add: ring_pop_def l empty_count_zero [OF e])
qed

text \<open>
  Claim C4 as stated fails: a successful configuration call empties the ring and keeps
  the counters. After \<open>module_init\<close>, a push of one byte and \<open>module_set_config\<close>,
  with no reset in between, the counters differ by 1 while no byte is queued (the pop
  that follows returns 0).
\<close>

theorem conservation_counterexample:
  "map_sum id (queue_balance \<circ> fst)
     (run [Call_module_init None, Call_ring_push (Some [65]) 1,
           Call_module_set_config (Some (g_config init_state)), Call_ring_pop (Some [0]) 1]
        init_state) = Inr (1, 0) \<and>
   map_sum id snd
     (run [Call_module_init None, Call_ring_push (Some [65]) 1,
           Call_module_set_config (Some (g_config init_state)), Call_ring_pop (Some [0]) 1]
        init_state) = Inr [Ret_bool True, Ret_size 1, Ret_bool True, Ret_size 0]"
  by (simp add: eval_defs queue_balance_def ring_count_def)

text \<open>
  Claim C4, amended. After any sequence of calls from the initial state in which every
  successful configuration call is made while the ring is empty, \<open>g_total_bytes_pushed\<close>
  minus \<open>g_total_bytes_popped\<close> (modulo \<open>2^64\<close>) is the number of bytes queued, which
  is the number of bytes a pop with room for them delivers. Resets may occur anywhere.
\<close>

theorem conservation_unless_reconfigured:
  assumes "run cs init_state = Inr (s, rs)" and "config_on_empty cs init_state"
  shows "g_total_bytes_pushed s - g_total_bytes_popped s = of_nat (ring_count s) \<and>
         (\<forall>out len. ring_count s \<le> len \<and> len \<le> length out \<longrightarrow>
            (\<exists>s' out'. ring_pop (Some out) len s = Inr (s', out', ring_count s)))"
proof -
  from run_conservation [OF init_conservation assms] have inv: "conservation_inv s" .
  then have "g_total_bytes_pushed s - g_total_bytes_popped s = of_nat (ring_count s)"
    by (simp add: conservation_inv_def)
  with drain_returns_count [OF inv] show ?thesis by blast
qed

theorem conservation_unless_reconfigured_witness:
  "config_on_empty
     [Call_module_init None, Call_ring_push (Some [1, 2, 3]) 3, Call_ring_pop (Some [0, 0, 0]) 3,
      Call_module_set_config (Some ((g_config init_state)\<lparr>ring_capacity := 4\<rparr>)),
      Call_ring_push (Some [7]) 1] init_state \<and>
   (\<exists>s. run
     [Call_module_init None, Call_ring_push (Some [1, 2, 3]) 3, Call_ring_pop (Some [0, 0, 0]) 3,
      Call_module_set_config (Some ((g_config init_state)\<lparr>ring_capacity := 4\<rparr>)),
      Call_ring_push (Some [7]) 1] init_state
      = Inr (s, [Ret_bool True, Ret_size 3, Ret_size 3, Ret_bool True, Ret_size 1]) \<and>
      g_total_bytes_pushed s = 4 \<and> g_total_bytes_popped s = 3 \<and>
      g_total_bytes_pushed s - g_total_bytes_popped s = of_nat (ring_count s) \<and>
      (\<exists>s' out'. ring_pop (Some [0, 0]) 2 s = Inr (s', out', ring_count s)))"
proof -
  let ?cs = "[Call_module_init None, Call_ring_push (Some [1, 2, 3]) 3, Call_ring_pop (Some [0, 0, 0]) 3,
      Call_module_set_config (Some ((g_config init_state)\<lparr>ring_capacity := 4\<rparr>)),
      Call_ring_push (Some [7]) 1]"
  have c: "config_on_empty ?cs init_state"
    by (simp add: eval_defs reconfigures_def)
  have "\<exists>s. run ?cs init_state
          = Inr (s, [Ret_bool True, Ret_size 3, Ret_size 3, Ret_bool True, Ret_size 1]) \<and>
        g_total_bytes_pushed s = 4 \<and> g_total_bytes_popped s = 3 \<and> ring_count s = 1"
    by (simp add: eval_defs ring_count_def)
  then obtain s where
    r: "run ?cs init_state = Inr (s, [Ret_bool True, Ret_size 3, Ret_size 3, Ret_bool True, Ret_size 1])"
    and v: "g_total_bytes_pushed s = 4" "g_total_bytes_popped s = 3" "ring_count s = 1"
    by blast
  from conservation_unless_reconfigured [OF r c] have
    "g_total_bytes_pushed s - g_total_bytes_popped s = of_nat (ring_count s)"
    and "ring_count s \<le> 2 \<and> 2 \<le> length [0, 0 :: u8] \<longrightarrow>
           (\<exists>s' out'. ring_pop (Some [0, 0]) 2 s = Inr (s', out', ring_count s))"
    by blast+
  with r c v show ?thesis by auto
qed

section \<open>CRC: one byte through the table and bit by bit\<close>

lemma crc_shift_ref_bit: "crc_shift c = ref_bit c"
proof -
  have "(0x8000 :: u16) = 2 ^ 15" by simp
  then have "(c AND 0x8000 \<noteq> 0) = bit c 15"
    by (simp only: and_exp_eq_0_iff_not_bit) simp
  then show ?thesis by (simp only: crc_shift_def ref_bit_def)
qed

lemma ref_bit_xor: "ref_bit (x XOR y) = ref_bit x XOR ref_bit y"
  by (simp add: ref_bit_def bit_xor_iff push_bit_xor xor.assoc xor.left_commute xor.commute)

lemma ref_bits_xor: "(ref_bit ^^ n) (x XOR y) = (ref_bit ^^ n) x XOR (ref_bit ^^ n) y"
  by (induction n) (simp_all add: ref_bit_xor)

lemma ref_bits_low: "k \<le> 8 \<Longrightarrow> (ref_bit ^^ k) (take_bit 8 x) = push_bit k (take_bit 8 x)"
proof (induction k)
  case 0
  then show ?case by simp
next
  case (Suc k)
  then have "\<not> 15 - k < (8 :: nat)" by arith
  then have "\<not> bit (push_bit k (take_bit 8 x)) 15"
    by (simp add: bit_push_bit_iff bit_take_bit_iff)
  with Suc show ?case
    by (simp add: ref_bit_def push_bit_double)
qed

lemma split_high_low:
  fixes c :: u16 and b :: u8
  shows "c XOR push_bit 8 (ucast b) =
           push_bit 8 (ucast (ucast (drop_bit 8 c XOR ucast b) :: u8)) XOR take_bit 8 c"
  by (rule bit_word_eqI) (auto simp: bit_simps)

lemma push8_take8: "push_bit 8 (take_bit 8 c) = push_bit 8 (c :: u16)"
  by (rule bit_word_eqI) (auto simp: bit_simps)

lemma ref_byte_table:
  fixes c :: u16 and b :: u8
  shows "(ref_bit ^^ 8) (c XOR push_bit 8 (ucast b)) =
           push_bit 8 c XOR (ref_bit ^^ 8) (push_bit 8 (ucast (ucast (drop_bit 8 c XOR ucast b) :: u8)))"
  by (simp add: split_high_low [of c b] ref_bits_xor ref_bits_low push8_take8 xor.commute)

section \<open>CRC: the table and the loop\<close>

lemma build_loop_length: "length (build_loop i tbl) = length tbl"
proof (induction i tbl rule: build_loop.induct)
  case (1 i tbl)
  show ?case
  proof (cases "unat i < 256")
    case True
    with "1.IH" [OF True refl refl] show ?thesis
      by (subst build_loop.simps) (simp add: Let_def)
  next
    case False
    then show ?thesis by (subst build_loop.simps) simp
  qed
qed

lemma build_loop_nth:
  assumes "n < 256" and "length tbl = 256"
  shows "build_loop i tbl ! n =
           (if unat i \<le> n then (crc_shift ^^ 8) (push_bit 8 (of_nat n)) else tbl ! n)"
  using assms
proof (induction i tbl rule: build_loop.induct)
  case (1 i tbl)
  show ?case
  proof (cases "unat i < 256")
    case False
    with "1.prems" show ?thesis by (subst build_loop.simps) simp
  next
    case True
    then have u: "unat (i + 1) = unat i + 1" by (simp add: unat_word_ariths)
    have i: "of_nat (unat i) = i" by simp
    let ?e = "(crc_shift ^^ 8) (push_bit 8 i)"
    have "build_loop i tbl ! n = build_loop (i + 1) (tbl[unat i := ?e]) ! n"
      using True by (subst build_loop.simps) (simp add: Let_def)
    also have "\<dots> = (if unat (i + 1) \<le> n then (crc_shift ^^ 8) (push_bit 8 (of_nat n))
                      else tbl[unat i := ?e] ! n)"
      using "1.IH" [OF True refl refl "1.prems"(1)] "1.prems"(2) by simp
    also have "\<dots> = (if unat i \<le> n then (crc_shift ^^ 8) (push_bit 8 (of_nat n)) else tbl ! n)"
    proof (cases "n = unat i")
      case True
      with \<open>unat i < 256\<close> "1.prems"(2) i show ?thesis by (simp add: u)
    next
      case False
      then show ?thesis by (auto simp: u)
    qed
    finally show ?thesis .
  qed
qed

lemma build_loop_table: "length tbl = 256 \<Longrightarrow> build_loop 0 tbl = crc16_table"
  by (rule nth_equalityI) (simp_all add: build_loop_length build_loop_nth crc16_table_def)

lemma crc16_table_nth:
  "crc16_table ! unat (idx :: u8) = (ref_bit ^^ 8) (push_bit 8 (ucast idx))"
proof -
  have "unat idx < 256" using unsigned_less [of idx, where 'a = nat] by simp
  moreover have "crc_shift = ref_bit" by (rule ext) (rule crc_shift_ref_bit)
  ultimately show ?thesis by (simp add: crc16_table_def)
qed

lemma crc_loop_ref:
  assumes "i \<le> len" and "len \<le> length bs"
  shows "crc_loop (Some bs) len i crc16_table c = Inr (ref_bytes (take (len - i) (drop i bs)) c)"
  using assms
proof (induction "len - i" arbitrary: i c)
  case 0
  then show ?case by (subst crc_loop.simps) simp
next
  case (Suc n)
  then have lt: "i < len" and b: "i < length bs" by simp_all
  let ?idx = "ucast (drop_bit 8 c XOR ucast (bs ! i)) :: u8"
  let ?c = "push_bit 8 c XOR crc16_table ! unat ?idx"
  have "crc_loop (Some bs) len i crc16_table c = crc_loop (Some bs) len (Suc i) crc16_table ?c"
    using lt b by (subst crc_loop.simps) (simp add: Let_def)
  also have "\<dots> = Inr (ref_bytes (take (len - Suc i) (drop (Suc i) bs)) ?c)"
    using Suc.hyps(1) [of "Suc i" ?c] Suc.hyps(2) Suc.prems lt by simp
  also have "?c = (ref_bit ^^ 8) (c XOR push_bit 8 (ucast (bs ! i)))"
    by (simp only: crc16_table_nth ref_byte_table)
  also have "ref_bytes (take (len - Suc i) (drop (Suc i) bs)) \<dots>
               = ref_bytes (take (len - i) (drop i bs)) c"
  proof -
    have "take (len - i) (drop i bs) = bs ! i # take (len - Suc i) (drop (Suc i) bs)"
      using lt b by (metis Cons_nth_drop_Suc Suc_diff_Suc take_Suc_Cons)
    then show ?thesis by simp
  qed
  finally show ?case .
qed

lemma crc_loop_zero: "crc_loop data 0 0 tbl c = Inr c"
  by (subst crc_loop.simps) simp

lemma crc16_ccitt_table:
  assumes "crc_inv s"
  shows "crc16_ccitt data len s =
           (case crc_loop data len 0 crc16_table 0xFFFF of
              Inl e \<Rightarrow> Inl e
            | Inr c \<Rightarrow> Inr (s\<lparr>s_crc16_table := crc16_table, s_crc_table_ready := True\<rparr>, c))"
proof (cases "s_crc_table_ready s")
  case True
  with assms have t: "s_crc16_table s = crc16_table" by (simp add: crc_inv_def)
  have "s\<lparr>s_crc16_table := crc16_table, s_crc_table_ready := True\<rparr> = s"
    using True t by simp
  then show ?thesis using True t by (auto simp: crc16_ccitt_def split: sum.splits)
next
  case False
  from assms have "build_loop 0 (s_crc16_table s) = crc16_table"
    by (simp add: crc_inv_def build_loop_table)
  then show ?thesis using False
    by (simp add: crc16_ccitt_def prv_crc16_build_table_def)
qed

lemma crc16_ccitt_ref:
  assumes "crc_inv s" and "len \<le> length bs"
  shows "crc16_ccitt (Some bs) len s =
           Inr (s\<lparr>s_crc16_table := crc16_table, s_crc_table_ready := True\<rparr>,
                crc16_ccitt_false_ref (take len bs))"
  using crc_loop_ref [of 0 len bs "0xFFFF"] assms
  by (simp add: crc16_ccitt_table crc16_ccitt_false_ref_def)

section \<open>CRC: the table across calls\<close>

lemma length_crc16_table: "length crc16_table = 256"
  by (simp add: crc16_table_def)

lemma crc_inv_cong:
  assumes "crc_inv s" and "s_crc16_table s' = s_crc16_table s"
    and "s_crc_table_ready s' = s_crc_table_ready s"
  shows "crc_inv s'"
  using assms by (simp add: crc_inv_def)

lemma init_crc_inv: "crc_inv init_state"
  by (simp add: crc_inv_def init_state_def)

lemma crc16_ccitt_crc_inv:
  assumes "crc_inv s" and "crc16_ccitt data len s = Inr (s', c)"
  shows "crc_inv s'"
  using assms(2) unfolding crc16_ccitt_table [OF assms(1)]
  by (auto simp: crc_inv_def length_crc16_table split: sum.splits)

lemma call_crc_inv:
  assumes inv: "crc_inv s" and r: "call c s = Inr (s', r)"
  shows "crc_inv s'"
proof (cases c)
  case (Call_module_init cfg)
  with r have "s' = fst (module_init cfg s)" by (auto split: prod.splits)
  with inv show ?thesis
    by (auto simp: crc_inv_def module_init_def Let_def)
next
  case (Call_module_set_config cfg)
  with r have "s' = fst (module_set_config cfg s)" by (auto split: prod.splits)
  with inv show ?thesis
    by (auto simp: crc_inv_def module_set_config_def Let_def split: option.splits)
next
  case Call_module_reset
  with r inv show ?thesis by (auto simp: crc_inv_def module_reset_def Let_def)
next
  case (Call_log_set_level l)
  with r inv show ?thesis by (auto simp: crc_inv_def log_set_level_def)
next
  case (Call_ring_push data len)
  with r obtain k where "ring_push data len s = Inr (s', k)" by (auto split: sum.splits)
  from ring_push_frame(5,6) [OF this] show ?thesis
    by (intro crc_inv_cong [OF inv])
next
  case (Call_ring_pop out len)
  with r obtain out' k where "ring_pop out len s = Inr (s', out', k)" by (auto split: sum.splits)
  from ring_pop_frame(5,6) [OF this] show ?thesis
    by (intro crc_inv_cong [OF inv])
next
  case (Call_crc16_ccitt data len)
  with r obtain x where "crc16_ccitt data len s = Inr (s', x)" by (auto split: sum.splits)
  from crc16_ccitt_crc_inv [OF inv this] show ?thesis .
next
  case (Call_srand32 seed)
  with r inv show ?thesis by (auto simp: crc_inv_def srand32_def Let_def)
next
  case Call_rand32
  with r inv show ?thesis by (auto simp: crc_inv_def rand32_def Let_def)
next
  case (Call_module_self_test m v)
  with r obtain ok where "module_self_test m v s = Inr (s', ok)" by (auto split: sum.splits)
  from module_self_test_Inr [OF this] obtain s1 p s2 buf k s3 x where
    u: "ring_push (Some self_test_msg) 11 (module_reset s) = Inr (s1, p)"
       "ring_pop (Some (replicate 32 0)) 32 s1 = Inr (s2, buf, k)"
       "crc16_ccitt buf k s2 = Inr (s3, x)"
    and f: "s_crc16_table s' = s_crc16_table s3" "s_crc_table_ready s' = s_crc_table_ready s3"
    by blast
  note i0 = crc_inv_cong [OF inv module_reset_crc_fields]
  note i1 = crc_inv_cong [OF i0 ring_push_frame(6) [OF u(1)] ring_push_frame(5) [OF u(1)]]
  note i2 = crc_inv_cong [OF i1 ring_pop_frame(6) [OF u(2)] ring_pop_frame(5) [OF u(2)]]
  from crc_inv_cong [OF crc16_ccitt_crc_inv [OF i2 u(3)] f] show ?thesis .
qed

lemma run_crc_inv:
  assumes "crc_inv s" and "run cs s = Inr (s', rs)"
  shows "crc_inv s'"
  using assms
proof (induction cs arbitrary: s rs)
  case Nil
  then show ?case by simp
next
  case (Cons c cs)
  from Cons.prems(2) obtain s1 r rs1 where
    c: "call c s = Inr (s1, r)" and cs: "run cs s1 = Inr (s', rs1)"
    by (rule run_Cons_Inr)
  from Cons.IH [OF call_crc_inv [OF Cons.prems(1) c] cs] show ?case .
qed

lemma check_value:
  "crc16_ccitt_false_ref [0x31, 0x32, 0x33, 0x34, 0x35, 0x36, 0x37, 0x38, 0x39] = 0x29B1"
  by code_simp

lemma run_init: "run [Call_module_init None] init_state = Inr (fst (module_init None init_state), [Ret_bool True])"
  by (simp add: module_init_def init_state_def Let_def RING_STORAGE_SIZE_def)

section \<open>CRC: refinement of the bitwise reference\<close>

text \<open>
  Claim C7. In every state the module can reach from its initial state, the table-driven
  \<open>crc16_ccitt\<close> over the first \<open>len\<close> bytes of a buffer returns what the bit-by-bit
  CRC-16/CCITT-FALSE reference computes over those bytes, and the table it leaves holds,
  for each byte value \<open>i\<close>, \<open>i << 8\<close> shifted left eight times with \<open>0x1021\<close> XORed
  in whenever the top bit was set.
\<close>

theorem table_driven_equals_bitwise:
  assumes "run cs init_state = Inr (s, rs)" and "len \<le> length bs"
  shows "\<exists>s'. crc16_ccitt (Some bs) len s = Inr (s', crc16_ccitt_false_ref (take len bs)) \<and>
              (\<forall>i<256. s_crc16_table s' ! i = (crc_shift ^^ 8) (push_bit 8 (of_nat i)))"
proof -
  from run_crc_inv [OF init_crc_inv assms(1)] have "crc_inv s" .
  from crc16_ccitt_ref [OF this assms(2)] show ?thesis
    by (simp add: crc16_table_def)
qed

theorem table_driven_equals_bitwise_witness:
  "run [Call_module_init None] init_state = Inr (fst (module_init None init_state), [Ret_bool True]) \<and>
   (9 :: nat) \<le> length [0x31, 0x32, 0x33, 0x34, 0x35, 0x36, 0x37, 0x38, 0x39 :: u8] \<and>
   crc16_ccitt_false_ref [0x31, 0x32, 0x33, 0x34, 0x35, 0x36, 0x37, 0x38, 0x39] = 0x29B1 \<and>
   (\<exists>s'. crc16_ccitt (Some [0x31, 0x32, 0x33, 0x34, 0x35, 0x36, 0x37, 0x38, 0x39]) 9
            (fst (module_init None init_state)) = Inr (s', 0x29B1))"
proof -
  have l: "(9 :: nat) \<le> length [0x31, 0x32, 0x33, 0x34, 0x35, 0x36, 0x37, 0x38, 0x39 :: u8]"
    by simp
  from table_driven_equals_bitwise [OF run_init l] run_init l check_value show ?thesis
    by auto
qed

section \<open>CRC: empty input, determinism, check value\<close>

text \<open>
  Claim C6. \<open>crc16_ccitt\<close> of an empty input is \<open>0xFFFF\<close> in every state. For a fixed
  byte sequence it returns the same value in the initial state (first table build), in
  any state reached by any sequence of calls (so after any number of table builds and of
  \<open>module_init\<close> calls that clear the ready flag), and when called again right after,
  where the table is not rebuilt and the state does not change. For the ASCII bytes of
  \<open>123456789\<close> the value is \<open>0x29B1\<close>.
\<close>

theorem crc_empty_deterministic_check:
  "(\<exists>s'. crc16_ccitt data 0 s = Inr (s', 0xFFFF)) \<and>
   (run cs init_state = Inr (s1, rs) \<longrightarrow> len \<le> length bs \<longrightarrow>
      (\<exists>v s0' s1'. crc16_ccitt (Some bs) len init_state = Inr (s0', v) \<and>
                   crc16_ccitt (Some bs) len s1 = Inr (s1', v) \<and>
                   crc16_ccitt (Some bs) len s1' = Inr (s1', v))) \<and>
   (\<exists>s'. crc16_ccitt (Some [0x31, 0x32, 0x33, 0x34, 0x35, 0x36, 0x37, 0x38, 0x39]) 9 init_state
            = Inr (s', 0x29B1))"
proof (intro conjI impI)
  show "\<exists>s'. crc16_ccitt data 0 s = Inr (s', 0xFFFF)"
    by (simp add: crc16_ccitt_def crc_loop_zero)
next
  assume r: "run cs init_state = Inr (s1, rs)" and l: "len \<le> length bs"
  from run_crc_inv [OF init_crc_inv r] have i1: "crc_inv s1" .
  let ?v = "crc16_ccitt_false_ref (take len bs)"
  let ?s1 = "s1\<lparr>s_crc16_table := crc16_table, s_crc_table_ready := True\<rparr>"
  have a: "crc16_ccitt (Some bs) len s1 = Inr (?s1, ?v)"
    by (rule crc16_ccitt_ref [OF i1 l])
  then have "crc_inv ?s1" by (rule crc16_ccitt_crc_inv [OF i1])
  from crc16_ccitt_ref [OF this l] have b: "crc16_ccitt (Some bs) len ?s1 = Inr (?s1, ?v)"
    by simp
  from crc16_ccitt_ref [OF init_crc_inv l] a b
  show "\<exists>v s0' s1'. crc16_ccitt (Some bs) len init_state = Inr (s0', v) \<and>
                   crc16_ccitt (Some bs) len s1 = Inr (s1', v) \<and>
                   crc16_ccitt (Some bs) len s1' = Inr (s1', v)"
    by blast
next
  have "(9 :: nat) \<le> length [0x31, 0x32, 0x33, 0x34, 0x35, 0x36, 0x37, 0x38, 0x39 :: u8]"
    by simp
  from crc16_ccitt_ref [OF init_crc_inv this]
  show "\<exists>s'. crc16_ccitt (Some [0x31, 0x32, 0x33, 0x34, 0x35, 0x36, 0x37, 0x38, 0x39]) 9 init_state
            = Inr (s', 0x29B1)"
    by (simp add: check_value)
qed

theorem crc_empty_deterministic_check_witness:
  "run [Call_module_init None] init_state = Inr (fst (module_init None init_state), [Ret_bool True]) \<and>
   (2 :: nat) \<le> length [0xAB, 0xCD :: u8] \<and>
   (\<exists>v s0' s1'. crc16_ccitt (Some [0xAB, 0xCD]) 2 init_state = Inr (s0', v) \<and>
                 crc16_ccitt (Some [0xAB, 0xCD]) 2 (fst (module_init None init_state)) = Inr (s1', v) \<and>
                 crc16_ccitt (Some [0xAB, 0xCD]) 2 s1' = Inr (s1', v))"
  using crc_empty_deterministic_check
          [of None init_state "[Call_module_init None]" "fst (module_init None init_state)"
              "[Ret_bool True]" 2 "[0xAB, 0xCD]"]
    run_init
  by simp

end
